theory Spec2Isabelle
  imports Main "HOL-Library.Extended_Nat" "HOL-Library.Word"
begin

section \<open>Python values, classes and objects\<close>

text \<open>
  The module \<^verbatim>\<open>expressions.py\<close> defines a small class hierarchy of expression nodes,
  a postorder visitor and a symbolic differentiator.

  Values that are not expression objects: Python's \<^verbatim>\<open>int\<close> is unbounded, a \<^verbatim>\<open>float\<close> is
  kept as its IEEE binary64 bit pattern (the module never computes with one), \<^verbatim>\<open>bool\<close> is
  a subclass of \<^verbatim>\<open>int\<close>.
\<close>

datatype pyval = PInt int | PBool bool | PFloat "64 word" | PStr string | PNone

text \<open>
  The classes of the module. \<^verbatim>\<open>Pow\<close> is written \<open>Pow'\<close>, the plain name being the
  power set of HOL.
\<close>

datatype klass =
  Expression | Operator | Terminal | Number | Symbol | Add | Sub | Mul | Div | Pow'

text \<open>
  An object is its identity (what \<^verbatim>\<open>id\<close> returns), its class and its attributes:
  \<^verbatim>\<open>operands\<close>, the tuple every \<^verbatim>\<open>__init__\<close> sets, and \<^verbatim>\<open>value\<close>, which only
  \<^verbatim>\<open>Terminal.__init__\<close> sets (written \<open>value'\<close>; \<open>None\<close> here: the attribute is absent). No statement of
  the module assigns to an attribute outside \<^verbatim>\<open>__init__\<close>, so a reference to an object is
  modelled as the object itself, carrying its identity: two references alias exactly when
  the identities are equal.
\<close>

datatype obj = Obj (ident: nat) (cls: klass) (operands: "obj list") (value': "pyval option")

text \<open>An argument of a call: a value that is no expression, or a reference to an expression object.\<close>

datatype pyarg = Val pyval | Ref obj

datatype error =
  TypeError string | NotImplementedError string | IndexError | AttributeError | KeyError

subsection \<open>Types, subclassing and \<^verbatim>\<open>isinstance\<close>\<close>

datatype pytype = T_int | T_bool | T_float | T_str | T_NoneType | T_class klass

fun type_of_val :: "pyval \<Rightarrow> pytype" where
  "type_of_val (PInt _) = T_int"
| "type_of_val (PBool _) = T_bool"
| "type_of_val (PFloat _) = T_float"
| "type_of_val (PStr _) = T_str"
| "type_of_val PNone = T_NoneType"

fun type_of :: "pyarg \<Rightarrow> pytype" where
  "type_of (Val v) = type_of_val v"
| "type_of (Ref e) = T_class (cls e)"

text \<open>The method resolution order of each class of the module (without \<^verbatim>\<open>object\<close>).\<close>

fun mro :: "klass \<Rightarrow> klass list" where
  "mro Expression = [Expression]"
| "mro Operator = [Operator, Expression]"
| "mro Terminal = [Terminal, Expression]"
| "mro Number = [Number, Terminal, Expression]"
| "mro Symbol = [Symbol, Terminal, Expression]"
| "mro Add = [Add, Operator, Expression]"
| "mro Sub = [Sub, Operator, Expression]"
| "mro Mul = [Mul, Operator, Expression]"
| "mro Div = [Div, Operator, Expression]"
| "mro Pow' = [Pow', Operator, Expression]"

fun issubclass :: "pytype \<Rightarrow> pytype \<Rightarrow> bool" where
  "issubclass (T_class c) (T_class d) = (d \<in> set (mro c))"
| "issubclass T_bool T_int = True"
| "issubclass t u = (t = u)"

definition isinstance :: "pyarg \<Rightarrow> pytype list \<Rightarrow> bool" where
  "isinstance x ts = (\<exists>t \<in> set ts. issubclass (type_of x) t)"

text \<open>\<^verbatim>\<open>type(expr).__name__\<close>\<close>

fun type_name :: "klass \<Rightarrow> string" where
  "type_name Expression = ''Expression''"
| "type_name Operator = ''Operator''"
| "type_name Terminal = ''Terminal''"
| "type_name Number = ''Number''"
| "type_name Symbol = ''Symbol''"
| "type_name Add = ''Add''"
| "type_name Sub = ''Sub''"
| "type_name Mul = ''Mul''"
| "type_name Div = ''Div''"
| "type_name Pow' = ''Pow''"

subsection \<open>Construction\<close>

text \<open>
  Creating an object takes the next free identity; the counter is threaded through every
  function that constructs objects. \<^verbatim>\<open>Expression.__init__(self, *operands)\<close> is what the
  operator classes inherit: \<open>Expression_init c\<close> is the call \<^verbatim>\<open>c(*operands)\<close> for a class
  \<open>c\<close> without an \<^verbatim>\<open>__init__\<close> of its own. The operands are expression objects (the
  source does not check this; other operands are outside the model).
\<close>

definition Expression_init :: "klass \<Rightarrow> obj list \<Rightarrow> nat \<Rightarrow> obj \<times> nat" where
  "Expression_init c ops n = (Obj n c ops None, Suc n)"

definition Terminal_init :: "klass \<Rightarrow> pyval \<Rightarrow> nat \<Rightarrow> obj \<times> nat" where
  "Terminal_init c v n = (Obj n c [] (Some v), Suc n)"

definition Number_init :: "pyarg \<Rightarrow> nat \<Rightarrow> error + obj \<times> nat" where
  "Number_init x n =
     (if \<not> isinstance x [T_int, T_float]
      then Inl (TypeError ''Number value must be an int or float.'')
      else (case x of Val v \<Rightarrow> Inr (Terminal_init Number v n)
                    | Ref _ \<Rightarrow> Inl (TypeError ''Number value must be an int or float.'')))"

definition Symbol_init :: "pyarg \<Rightarrow> nat \<Rightarrow> error + obj \<times> nat" where
  "Symbol_init x n =
     (if \<not> isinstance x [T_str]
      then Inl (TypeError ''Symbol value must be a string.'')
      else (case x of Val v \<Rightarrow> Inr (Terminal_init Symbol v n)
                    | Ref _ \<Rightarrow> Inl (TypeError ''Symbol value must be a string.'')))"

text \<open>
  The operand expression of every combinator:
  \<^verbatim>\<open>other if isinstance(other, Expression) else Number(other)\<close>.
\<close>

definition promote :: "pyarg \<Rightarrow> nat \<Rightarrow> error + obj \<times> nat" where
  "promote other n =
     (if isinstance other [T_class Expression]
      then (case other of Ref e \<Rightarrow> Inr (e, n) | Val v \<Rightarrow> Number_init other n)
      else Number_init other n)"

text \<open>
  \<^verbatim>\<open>__add__\<close> \dots \<^verbatim>\<open>__pow__\<close> build \<^verbatim>\<open>C(self, promoted)\<close>, the reflected methods
  \<^verbatim>\<open>__radd__\<close> \dots \<^verbatim>\<open>__rpow__\<close> build \<^verbatim>\<open>C(promoted, self)\<close>.
\<close>

definition Expression_add :: "obj \<Rightarrow> pyarg \<Rightarrow> nat \<Rightarrow> error + obj \<times> nat" where
  "Expression_add self other n =
     (case promote other n of
        Inl err \<Rightarrow> Inl err
      | Inr (b, n1) \<Rightarrow> Inr (Expression_init Add [self, b] n1))"

definition Expression_sub :: "obj \<Rightarrow> pyarg \<Rightarrow> nat \<Rightarrow> error + obj \<times> nat" where
  "Expression_sub self other n =
     (case promote other n of
        Inl err \<Rightarrow> Inl err
      | Inr (b, n1) \<Rightarrow> Inr (Expression_init Sub [self, b] n1))"

definition Expression_mul :: "obj \<Rightarrow> pyarg \<Rightarrow> nat \<Rightarrow> error + obj \<times> nat" where
  "Expression_mul self other n =
     (case promote other n of
        Inl err \<Rightarrow> Inl err
      | Inr (b, n1) \<Rightarrow> Inr (Expression_init Mul [self, b] n1))"

definition Expression_truediv :: "obj \<Rightarrow> pyarg \<Rightarrow> nat \<Rightarrow> error + obj \<times> nat" where
  "Expression_truediv self other n =
     (case promote other n of
        Inl err \<Rightarrow> Inl err
      | Inr (b, n1) \<Rightarrow> Inr (Expression_init Div [self, b] n1))"

definition Expression_pow :: "obj \<Rightarrow> pyarg \<Rightarrow> nat \<Rightarrow> error + obj \<times> nat" where
  "Expression_pow self other n =
     (case promote other n of
        Inl err \<Rightarrow> Inl err
      | Inr (b, n1) \<Rightarrow> Inr (Expression_init Pow' [self, b] n1))"

definition Expression_radd :: "obj \<Rightarrow> pyarg \<Rightarrow> nat \<Rightarrow> error + obj \<times> nat" where
  "Expression_radd self other n =
     (case promote other n of
        Inl err \<Rightarrow> Inl err
      | Inr (b, n1) \<Rightarrow> Inr (Expression_init Add [b, self] n1))"

definition Expression_rsub :: "obj \<Rightarrow> pyarg \<Rightarrow> nat \<Rightarrow> error + obj \<times> nat" where
  "Expression_rsub self other n =
     (case promote other n of
        Inl err \<Rightarrow> Inl err
      | Inr (b, n1) \<Rightarrow> Inr (Expression_init Sub [b, self] n1))"

definition Expression_rmul :: "obj \<Rightarrow> pyarg \<Rightarrow> nat \<Rightarrow> error + obj \<times> nat" where
  "Expression_rmul self other n =
     (case promote other n of
        Inl err \<Rightarrow> Inl err
      | Inr (b, n1) \<Rightarrow> Inr (Expression_init Mul [b, self] n1))"

definition Expression_rtruediv :: "obj \<Rightarrow> pyarg \<Rightarrow> nat \<Rightarrow> error + obj \<times> nat" where
  "Expression_rtruediv self other n =
     (case promote other n of
        Inl err \<Rightarrow> Inl err
      | Inr (b, n1) \<Rightarrow> Inr (Expression_init Div [b, self] n1))"

definition Expression_rpow :: "obj \<Rightarrow> pyarg \<Rightarrow> nat \<Rightarrow> error + obj \<times> nat" where
  "Expression_rpow self other n =
     (case promote other n of
        Inl err \<Rightarrow> Inl err
      | Inr (b, n1) \<Rightarrow> Inr (Expression_init Pow' [b, self] n1))"

section \<open>Rendering: \<^verbatim>\<open>__str__\<close>\<close>

text \<open>
  The class attributes \<^verbatim>\<open>symbol\<close> and \<^verbatim>\<open>precedence\<close>, looked up along the method
  resolution order: \<^verbatim>\<open>Expression\<close> has neither (reading one raises
  \<^verbatim>\<open>AttributeError\<close>), the terminals have the precedence \<^verbatim>\<open>float("inf")\<close> and no symbol.
\<close>

fun symbol :: "klass \<Rightarrow> string option" where
  "symbol Operator = Some []"
| "symbol Add = Some ''+''"
| "symbol Sub = Some ''-''"
| "symbol Mul = Some ''*''"
| "symbol Div = Some ''/''"
| "symbol Pow' = Some ''^''"
| "symbol _ = None"

fun precedence :: "klass \<Rightarrow> enat option" where
  "precedence Expression = None"
| "precedence Operator = Some 0"
| "precedence Terminal = Some \<infinity>"
| "precedence Number = Some \<infinity>"
| "precedence Symbol = Some \<infinity>"
| "precedence Add = Some 1"
| "precedence Sub = Some 1"
| "precedence Mul = Some 2"
| "precedence Div = Some 2"
| "precedence Pow' = Some 3"

text \<open>\<^verbatim>\<open>str\<close> of an \<^verbatim>\<open>int\<close>: the decimal digits, with a minus sign below zero.\<close>

fun str_nat :: "nat \<Rightarrow> string" where
  "str_nat n =
     (if n < 10 then [''0123456789'' ! n]
      else str_nat (n div 10) @ [''0123456789'' ! (n mod 10)])"

definition str_int :: "int \<Rightarrow> string" where
  "str_int i = (if i < 0 then CHR ''-'' # str_nat (nat (- i)) else str_nat (nat i))"

text \<open>
  \<^verbatim>\<open>str\<close> of a value. The text of a \<^verbatim>\<open>float\<close> is the interpreter's shortest
  round-trip decimal: it is not part of the module and is taken as the parameter
  \<open>float_str\<close>.
\<close>

fun str_val :: "(64 word \<Rightarrow> string) \<Rightarrow> pyval \<Rightarrow> string" where
  "str_val float_str (PInt i) = str_int i"
| "str_val float_str (PBool b) = (if b then ''True'' else ''False'')"
| "str_val float_str (PFloat x) = float_str x"
| "str_val float_str (PStr s) = s"
| "str_val float_str PNone = ''None''"

text \<open>\<^verbatim>\<open>sep.join(parts)\<close>\<close>

fun join :: "string \<Rightarrow> string list \<Rightarrow> string" where
  "join sep [] = []"
| "join sep [x] = x"
| "join sep (x # y # ys) = x @ sep @ join sep (y # ys)"

text \<open>The results of a generator, in order, up to the first exception.\<close>

fun collect :: "('e + 'a) list \<Rightarrow> 'e + 'a list" where
  "collect [] = Inr []"
| "collect (x # xs) =
     (case x of
        Inl err \<Rightarrow> Inl err
      | Inr a \<Rightarrow> (case collect xs of Inl err \<Rightarrow> Inl err | Inr as \<Rightarrow> Inr (a # as)))"

text \<open>
  \<^verbatim>\<open>str(e)\<close> for an expression object: \<^verbatim>\<open>Operator.__str__\<close> for the classes below
  \<^verbatim>\<open>Operator\<close>, \<^verbatim>\<open>Terminal.__str__\<close> for those below \<^verbatim>\<open>Terminal\<close>, and
  \<^verbatim>\<open>object.__str__\<close> for a plain \<^verbatim>\<open>Expression\<close>, whose text shows a memory address and is
  the parameter \<open>object_str\<close>. In \<^verbatim>\<open>format_operand\<close> the comparison of the precedences
  comes first, then \<^verbatim>\<open>str(operand)\<close>.
\<close>

fun str_expr :: "(64 word \<Rightarrow> string) \<Rightarrow> (nat \<Rightarrow> string) \<Rightarrow> obj \<Rightarrow> error + string" where
  "str_expr float_str object_str (Obj i c ops v) =
     (if Operator \<in> set (mro c) then
        (case symbol c of
           None \<Rightarrow> Inl AttributeError
         | Some symb \<Rightarrow>
            (case collect (map (\<lambda>operand.
                    (case precedence (cls operand) of
                       None \<Rightarrow> Inl AttributeError
                     | Some p \<Rightarrow>
                        (case precedence c of
                           None \<Rightarrow> Inl AttributeError
                         | Some q \<Rightarrow>
                            (case str_expr float_str object_str operand of
                               Inl err \<Rightarrow> Inl err
                             | Inr s \<Rightarrow> Inr (if p < q then ''('' @ s @ '')'' else s))))) ops) of
               Inl err \<Rightarrow> Inl err
             | Inr parts \<Rightarrow> Inr (join ('' '' @ symb @ '' '') parts)))
      else if Terminal \<in> set (mro c) then
        (case v of None \<Rightarrow> Inl AttributeError | Some x \<Rightarrow> Inr (str_val float_str x))
      else Inr (object_str i))"

section \<open>Differentiation\<close>

text \<open>
  \<^verbatim>\<open>differentiate\<close> is a \<^verbatim>\<open>singledispatch\<close> function: one equation for each registered
  class, and the default for the classes without a registration (no class of the module
  inherits from a registered one). The keyword argument \<^verbatim>\<open>var\<close> is a string. The rules
  read \<^verbatim>\<open>expr.operands[0]\<close> and \<^verbatim>\<open>expr.operands[1]\<close>, which raise \<^verbatim>\<open>IndexError\<close> on a
  shorter tuple, in the order of the source; objects are created in Python's order of
  evaluation, arguments before the call. The recursion follows the tree; the
  interpreter's limit on the depth of recursion is not part of the model.
\<close>

fun differentiate :: "obj \<Rightarrow> string \<Rightarrow> nat \<Rightarrow> error + obj \<times> nat" where
  "differentiate (Obj i Number ops v) var n = Number_init (Val (PInt 0)) n"
| "differentiate (Obj i Symbol ops v) var n =
     (case v of
        None \<Rightarrow> Inl AttributeError
      | Some x \<Rightarrow>
         (if x = PStr var then Number_init (Val (PInt 1)) n
          else Number_init (Val (PInt 0)) n))"
| "differentiate (Obj i Add ops v) var n =
     (case ops of
        [] \<Rightarrow> Inl IndexError
      | left # ops' \<Rightarrow>
         (case differentiate left var n of
            Inl err \<Rightarrow> Inl err
          | Inr (left_diff, n1) \<Rightarrow>
             (case ops' of
                [] \<Rightarrow> Inl IndexError
              | right # _ \<Rightarrow>
                 (case differentiate right var n1 of
                    Inl err \<Rightarrow> Inl err
                  | Inr (right_diff, n2) \<Rightarrow>
                     Inr (Expression_init Add [left_diff, right_diff] n2)))))"
| "differentiate (Obj i Mul ops v) var n =
     (case ops of
        [] \<Rightarrow> Inl IndexError
      | left # ops' \<Rightarrow>
         (case differentiate left var n of
            Inl err \<Rightarrow> Inl err
          | Inr (left_diff, n1) \<Rightarrow>
             (case ops' of
                [] \<Rightarrow> Inl IndexError
              | right # _ \<Rightarrow>
                 (case differentiate right var n1 of
                    Inl err \<Rightarrow> Inl err
                  | Inr (right_diff, n2) \<Rightarrow>
                     (let (m1, n3) = Expression_init Mul [left_diff, right] n2;
                          (m2, n4) = Expression_init Mul [left, right_diff] n3
                      in Inr (Expression_init Add [m1, m2] n4))))))"
| "differentiate (Obj i Sub ops v) var n =
     (case ops of
        [] \<Rightarrow> Inl IndexError
      | left # ops' \<Rightarrow>
         (case differentiate left var n of
            Inl err \<Rightarrow> Inl err
          | Inr (left_diff, n1) \<Rightarrow>
             (case ops' of
                [] \<Rightarrow> Inl IndexError
              | right # _ \<Rightarrow>
                 (case differentiate right var n1 of
                    Inl err \<Rightarrow> Inl err
                  | Inr (right_diff, n2) \<Rightarrow>
                     Inr (Expression_init Sub [left_diff, right_diff] n2)))))"
| "differentiate (Obj i Div ops v) var n =
     (case ops of
        [] \<Rightarrow> Inl IndexError
      | left # ops' \<Rightarrow>
         (case differentiate left var n of
            Inl err \<Rightarrow> Inl err
          | Inr (left_diff, n1) \<Rightarrow>
             (case ops' of
                [] \<Rightarrow> Inl IndexError
              | right # _ \<Rightarrow>
                 (case differentiate right var n1 of
                    Inl err \<Rightarrow> Inl err
                  | Inr (right_diff, n2) \<Rightarrow>
                     (let (m1, n3) = Expression_init Mul [right, left_diff] n2;
                          (m2, n4) = Expression_init Mul [left, right_diff] n3;
                          (num, n5) = Expression_init Sub [m1, m2] n4
                      in (case Number_init (Val (PInt 2)) n5 of
                            Inl err \<Rightarrow> Inl err
                          | Inr (c2, n6) \<Rightarrow>
                             (let (den, n7) = Expression_init Pow' [right, c2] n6
                              in Inr (Expression_init Div [num, den] n7))))))))"
| "differentiate (Obj i Pow' ops v) var n =
     (case ops of
        [] \<Rightarrow> Inl IndexError
      | [_] \<Rightarrow> Inl IndexError
      | base # exponent # _ \<Rightarrow>
         (case Number_init (Val (PInt 1)) n of
            Inl err \<Rightarrow> Inl err
          | Inr (c1, n1) \<Rightarrow>
             (let (exp1, n2) = Expression_init Sub [exponent, c1] n1;
                  (pw, n3) = Expression_init Pow' [base, exp1] n2
              in Inr (Expression_init Mul [exponent, pw] n3))))"
| "differentiate (Obj i c ops v) var n =
     Inl (NotImplementedError (''Cannot differentiate '' @ type_name c))"

section \<open>The postorder visitor\<close>

text \<open>
  \<^verbatim>\<open>postvisitor(expr, fn, **kwargs)\<close>. The callable \<^verbatim>\<open>fn\<close> is a Python function: it may
  read and change state of its own, so it takes a state \<open>'s\<close> and returns the new one
  with its result; \<^verbatim>\<open>kwargs\<close> is handed to every call unchanged. \<^verbatim>\<open>fn\<close> is taken to
  return (an exception of \<^verbatim>\<open>fn\<close> would leave the loop at once).

  The dictionary \<^verbatim>\<open>visited\<close> has expression objects as keys. The classes define neither
  \<^verbatim>\<open>__eq__\<close> nor \<^verbatim>\<open>__hash__\<close>, so a key is an object's identity: the dictionary is a map
  from identities to results. The list \<^verbatim>\<open>stack\<close> grows and shrinks at its end.
\<close>

text \<open>\<^verbatim>\<open>(visited[o] for o in e.operands)\<close>; \<open>None\<close> is a \<^verbatim>\<open>KeyError\<close>.\<close>

fun lookup_all :: "(nat \<rightharpoonup> 'r) \<Rightarrow> obj list \<Rightarrow> 'r list option" where
  "lookup_all visited [] = Some []"
| "lookup_all visited (c # cs) =
     (case visited (ident c) of
        None \<Rightarrow> None
      | Some r \<Rightarrow> (case lookup_all visited cs of None \<Rightarrow> None | Some rs \<Rightarrow> Some (r # rs)))"

text \<open>The \<^verbatim>\<open>while stack:\<close> loop; the value \<open>None\<close> of the option type is a loop that never ends.\<close>

partial_function (option) postvisitor_loop ::
  "(obj \<Rightarrow> 'r list \<Rightarrow> 'k \<Rightarrow> 's \<Rightarrow> 'r \<times> 's) \<Rightarrow> 'k \<Rightarrow> obj list \<Rightarrow> (nat \<rightharpoonup> 'r) \<Rightarrow> 's
     \<Rightarrow> (error + (nat \<rightharpoonup> 'r) \<times> 's) option" where
  "postvisitor_loop fn kwargs stack visited s =
     (if stack = [] then Some (Inr (visited, s))
      else
        (let e = last stack;
             stack1 = butlast stack;
             unvisited_children = filter (\<lambda>c. visited (ident c) = None) (operands e)
         in if unvisited_children \<noteq> [] then
              postvisitor_loop fn kwargs (stack1 @ [e] @ unvisited_children) visited s
            else
              (case lookup_all visited (operands e) of
                 None \<Rightarrow> Some (Inl KeyError)
               | Some results \<Rightarrow>
                  (case fn e results kwargs s of
                     (r, s') \<Rightarrow> postvisitor_loop fn kwargs stack1 (visited(ident e \<mapsto> r)) s'))))"

definition postvisitor ::
  "obj \<Rightarrow> (obj \<Rightarrow> 'r list \<Rightarrow> 'k \<Rightarrow> 's \<Rightarrow> 'r \<times> 's) \<Rightarrow> 'k \<Rightarrow> 's \<Rightarrow> (error + 'r \<times> 's) option" where
  "postvisitor expr fn kwargs s =
     (case postvisitor_loop fn kwargs [expr] Map.empty s of
        None \<Rightarrow> None
      | Some (Inl err) \<Rightarrow> Some (Inl err)
      | Some (Inr (visited, s')) \<Rightarrow>
         (case visited (ident expr) of
            None \<Rightarrow> Some (Inl KeyError)
          | Some r \<Rightarrow> Some (Inr (r, s'))))"

section \<open>Object graphs, call traces and the rule table\<close>

subsection \<open>Object graphs\<close>

text \<open>
  The objects reachable from an object through \<^verbatim>\<open>operands\<close>, itself included. An object
  that is an operand in several places occurs once in this set: a DAG is a term in which
  equal identities carry equal objects. Every graph of Python objects has this property
  (\<open>consistent\<close>): an identity names one object.
\<close>

fun nodes :: "obj \<Rightarrow> obj set" where
  "nodes (Obj i c ops v) = insert (Obj i c ops v) (\<Union>x \<in> set ops. nodes x)"

definition consistent :: "obj set \<Rightarrow> bool" where
  "consistent S = (\<forall>a \<in> S. \<forall>b \<in> S. ident a = ident b \<longrightarrow> a = b)"

text \<open>
  A set of live objects and the allocation counter: the objects are consistent and all
  their identities are below the counter.
\<close>

definition heap_ok :: "nat \<Rightarrow> obj set \<Rightarrow> bool" where
  "heap_ok n U = (consistent U \<and> (\<forall>x \<in> U. ident x < n))"

subsection \<open>Callables and their call traces\<close>

text \<open>
  \<open>stateless f\<close> is a callable without effects. \<open>traced fn\<close> behaves as \<open>fn\<close> and
  appends a record of every call (the node, the results passed for its operands, the
  result returned) to a list kept beside the state of \<open>fn\<close>.
\<close>

definition stateless ::
  "(obj \<Rightarrow> 'r list \<Rightarrow> 'k \<Rightarrow> 'r) \<Rightarrow> obj \<Rightarrow> 'r list \<Rightarrow> 'k \<Rightarrow> 's \<Rightarrow> 'r \<times> 's" where
  "stateless f e results kwargs s = (f e results kwargs, s)"

definition traced ::
  "(obj \<Rightarrow> 'r list \<Rightarrow> 'k \<Rightarrow> 's \<Rightarrow> 'r \<times> 's)
     \<Rightarrow> obj \<Rightarrow> 'r list \<Rightarrow> 'k \<Rightarrow> 's \<times> (obj \<times> 'r list \<times> 'r) list
     \<Rightarrow> 'r \<times> 's \<times> (obj \<times> 'r list \<times> 'r) list" where
  "traced fn e results kwargs st =
     (case fn e results kwargs (fst st) of
        (r, s') \<Rightarrow> (r, (s', snd st @ [(e, results, r)])))"

text \<open>The dictionary after the calls of a trace: every call stores its result under the node's identity.\<close>

fun replay :: "(nat \<rightharpoonup> 'r) \<Rightarrow> (obj \<times> 'r list \<times> 'r) list \<Rightarrow> (nat \<rightharpoonup> 'r)" where
  "replay m [] = m"
| "replay m ((e, results, r) # tr) = replay (m(ident e \<mapsto> r)) tr"

text \<open>
  A trace is in postorder when every call receives, in the order of the node's operands,
  the results the dictionary holds for them at that moment: each operand has been called
  before, and the result passed is the one of its latest call.
\<close>

fun postorder_from :: "(nat \<rightharpoonup> 'r) \<Rightarrow> (obj \<times> 'r list \<times> 'r) list \<Rightarrow> bool" where
  "postorder_from m [] = True"
| "postorder_from m ((e, results, r) # tr) =
     (lookup_all m (operands e) = Some results \<and> postorder_from (m(ident e \<mapsto> r)) tr)"

text \<open>The bottom-up fold of a tree with a function without effects.\<close>

fun fold_expr :: "(obj \<Rightarrow> 'r list \<Rightarrow> 'k \<Rightarrow> 'r) \<Rightarrow> 'k \<Rightarrow> obj \<Rightarrow> 'r" where
  "fold_expr f kwargs (Obj i c ops v) = f (Obj i c ops v) (map (fold_expr f kwargs) ops) kwargs"

subsection \<open>What the loop does with one stack entry\<close>

text \<open>
  \<open>call\<close> is the \<^verbatim>\<open>else\<close> branch of the loop body for a node whose operands are all in
  the dictionary. \<open>visit\<close> is the effect of the iterations from the moment a node is on
  top of the stack until it is removed for good: its unvisited operands are pushed and
  worked off from the last to the first, then the node is called. The proofs relate the
  loop to \<open>visit\<close>; no statement of a claim mentions it.
\<close>

definition call ::
  "(obj \<Rightarrow> 'r list \<Rightarrow> 'k \<Rightarrow> 's \<Rightarrow> 'r \<times> 's) \<Rightarrow> 'k \<Rightarrow> obj
     \<Rightarrow> (nat \<rightharpoonup> 'r) \<times> 's \<Rightarrow> (nat \<rightharpoonup> 'r) \<times> 's" where
  "call fn kwargs e st =
     (case fn e (map (\<lambda>c. the (fst st (ident c))) (operands e)) kwargs (snd st) of
        (r, s') \<Rightarrow> ((fst st)(ident e \<mapsto> r), s'))"

fun visit ::
  "(obj \<Rightarrow> 'r list \<Rightarrow> 'k \<Rightarrow> 's \<Rightarrow> 'r \<times> 's) \<Rightarrow> 'k \<Rightarrow> obj
     \<Rightarrow> (nat \<rightharpoonup> 'r) \<times> 's \<Rightarrow> (nat \<rightharpoonup> 'r) \<times> 's" where
  "visit fn kwargs (Obj i c ops v) st =
     call fn kwargs (Obj i c ops v)
       (fold (\<lambda>x a. visit fn kwargs x a) (rev (filter (\<lambda>x. fst st (ident x) = None) ops)) st)"

definition Inv :: "(nat \<rightharpoonup> 'r) \<Rightarrow> (obj \<times> 'r list \<times> 'r) list \<Rightarrow> bool" where
  "Inv V tr = (V = replay Map.empty tr \<and> postorder_from Map.empty tr)"

definition correct ::
  "(obj \<Rightarrow> 'r list \<Rightarrow> 'k \<Rightarrow> 'r) \<Rightarrow> 'k \<Rightarrow> obj set \<Rightarrow> (nat \<rightharpoonup> 'r) \<Rightarrow> bool" where
  "correct f kw U V = (\<forall>x \<in> U. \<forall>r. V (ident x) = Some r \<longrightarrow> r = fold_expr f kw x)"

subsection \<open>The rule table of the specification\<close>

text \<open>
  The expressions of the specification: \<^verbatim>\<open>Number(value)\<close>, \<^verbatim>\<open>Symbol(name)\<close> and the five
  binary operators, without identities. \<open>spec_derivative\<close> is the rule table of the
  specification, written from its words and not from the source; \<open>abstract\<close> reads a
  well-formed object graph as such an expression (\<open>None\<close> for any other object).
\<close>

datatype sexpr =
  SNumber pyval | SSymbol string
| SAdd sexpr sexpr | SSub sexpr sexpr | SMul sexpr sexpr | SDiv sexpr sexpr | SPow sexpr sexpr

fun spec_derivative :: "string \<Rightarrow> sexpr \<Rightarrow> sexpr" where
  "spec_derivative var (SNumber v) = SNumber (PInt 0)"
| "spec_derivative var (SSymbol name) = (if name = var then SNumber (PInt 1) else SNumber (PInt 0))"
| "spec_derivative var (SAdd l r) = SAdd (spec_derivative var l) (spec_derivative var r)"
| "spec_derivative var (SSub l r) = SSub (spec_derivative var l) (spec_derivative var r)"
| "spec_derivative var (SMul l r) =
     SAdd (SMul (spec_derivative var l) r) (SMul l (spec_derivative var r))"
| "spec_derivative var (SDiv l r) =
     SDiv (SSub (SMul r (spec_derivative var l)) (SMul l (spec_derivative var r)))
          (SPow r (SNumber (PInt 2)))"
| "spec_derivative var (SPow b x) = SMul x (SPow b (SSub x (SNumber (PInt 1))))"

fun binary :: "(sexpr \<Rightarrow> sexpr \<Rightarrow> sexpr) \<Rightarrow> sexpr option list \<Rightarrow> sexpr option" where
  "binary C [Some a, Some b] = Some (C a b)"
| "binary C _ = None"

fun abstract :: "obj \<Rightarrow> sexpr option" where
  "abstract (Obj i c ops v) =
     (case c of
        Number \<Rightarrow>
          (case v of
             Some x \<Rightarrow> if ops = [] \<and> isinstance (Val x) [T_int, T_float] then Some (SNumber x) else None
           | None \<Rightarrow> None)
      | Symbol \<Rightarrow>
          (case v of Some (PStr name) \<Rightarrow> if ops = [] then Some (SSymbol name) else None | _ \<Rightarrow> None)
      | Add \<Rightarrow> if v = None then binary SAdd (map abstract ops) else None
      | Sub \<Rightarrow> if v = None then binary SSub (map abstract ops) else None
      | Mul \<Rightarrow> if v = None then binary SMul (map abstract ops) else None
      | Div \<Rightarrow> if v = None then binary SDiv (map abstract ops) else None
      | Pow' \<Rightarrow> if v = None then binary SPow (map abstract ops) else None
      | _ \<Rightarrow> None)"

subsection \<open>Dispatch of \<^verbatim>\<open>differentiate\<close>\<close>

text \<open>
  The classes with a registration, in the order of the source. \<open>invoked e\<close> bounds the
  objects \<^verbatim>\<open>differentiate\<close> is called on during the call on \<open>e\<close>: \<open>e\<close>, and through the
  rules of \<^verbatim>\<open>Add\<close>, \<^verbatim>\<open>Mul\<close>, \<^verbatim>\<open>Sub\<close> and \<^verbatim>\<open>Div\<close> the first two operands (the rule of
  \<^verbatim>\<open>Pow\<close> makes no recursive call). \<open>attributes_present e\<close> holds when every attribute the
  rules read on these objects is there: two operands of an operator, the value of a
  \<^verbatim>\<open>Symbol\<close>.
\<close>

definition registered :: "klass \<Rightarrow> bool" where
  "registered c = (c \<in> set [Number, Symbol, Add, Mul, Sub, Div, Pow'])"

fun invoked :: "obj \<Rightarrow> obj set" where
  "invoked (Obj i c ops v) =
     insert (Obj i c ops v)
       (if c \<in> set [Add, Mul, Sub, Div] then
          (case ops of
             [] \<Rightarrow> {}
           | [left] \<Rightarrow> invoked left
           | left # right # _ \<Rightarrow> invoked left \<union> invoked right)
        else {})"

fun attributes_present :: "obj \<Rightarrow> bool" where
  "attributes_present (Obj i c ops v) =
     (if c \<in> set [Add, Mul, Sub, Div] then
        (case ops of
           left # right # _ \<Rightarrow> attributes_present left \<and> attributes_present right
         | _ \<Rightarrow> False)
      else if c = Pow' then 2 \<le> length ops
      else if c = Symbol then v \<noteq> None
      else True)"

subsection \<open>Values accepted by the constructors\<close>

fun numeric :: "pyval \<Rightarrow> bool" where
  "numeric (PInt _) = True"
| "numeric (PBool _) = True"
| "numeric (PFloat _) = True"
| "numeric _ = False"

fun textual :: "pyval \<Rightarrow> bool" where
  "textual (PStr _) = True"
| "textual _ = False"

subsection \<open>Example objects and callables\<close>

text \<open>
  The identities are those a fresh interpreter session gives when the objects are built in
  the order shown. \<open>ex_twice\<close> is \<^verbatim>\<open>x + x\<close> and \<open>ex_square\<close> is \<^verbatim>\<open>x * x\<close>, with the one
  object \<^verbatim>\<open>x = Symbol("x")\<close> as both operands; \<open>ex_dag\<close> is \<^verbatim>\<open>x + x * y\<close>; \<open>ex_ones\<close>
  is \<^verbatim>\<open>Add(Number(1), Number(1))\<close> with two separately built numbers; \<open>ex_bad\<close> is
  \<^verbatim>\<open>Expression() + 1\<close>.
\<close>

definition ex_x :: obj where
  "ex_x = Obj 0 Symbol [] (Some (PStr ''x''))"

definition ex_y :: obj where
  "ex_y = Obj 1 Symbol [] (Some (PStr ''y''))"

definition ex_mul :: obj where
  "ex_mul = Obj 2 Mul [ex_x, ex_y] None"

definition ex_dag :: obj where
  "ex_dag = Obj 3 Add [ex_x, ex_mul] None"

definition ex_twice :: obj where
  "ex_twice = Obj 1 Add [ex_x, ex_x] None"

definition ex_square :: obj where
  "ex_square = Obj 1 Mul [ex_x, ex_x] None"

definition ex_sum :: obj where
  "ex_sum = Obj 2 Add [ex_x, ex_y] None"

definition ex_ones :: obj where
  "ex_ones = Obj 2 Add [Obj 0 Number [] (Some (PInt 1)), Obj 1 Number [] (Some (PInt 1))] None"

definition ex_unregistered :: obj where
  "ex_unregistered = Obj 0 Expression [] None"

definition ex_bad :: obj where
  "ex_bad = Obj 2 Add [ex_unregistered, Obj 1 Number [] (Some (PInt 1))] None"

definition ex_a :: obj where
  "ex_a = Obj 0 Symbol [] (Some (PStr ''a''))"

definition ex_b :: obj where
  "ex_b = Obj 1 Symbol [] (Some (PStr ''b''))"

definition ex_c :: obj where
  "ex_c = Obj 2 Symbol [] (Some (PStr ''c''))"

definition ex_sub_chain :: obj where
  "ex_sub_chain = Obj 4 Sub [ex_a, Obj 3 Sub [ex_b, ex_c] None] None"

definition ex_product :: obj where
  "ex_product =
     Obj 4 Mul [Obj 2 Add [Obj 0 Symbol [] (Some (PStr ''x'')), Obj 1 Number [] (Some (PInt 1))] None,
                Obj 3 Number [] (Some (PInt 2))] None"

text \<open>
  \<open>record_visit\<close> appends the node it is called on to a list (its state);
  \<open>count_nodes\<close> adds one to the sum of the operands' results.
\<close>

definition record_visit :: "obj \<Rightarrow> unit list \<Rightarrow> unit \<Rightarrow> obj list \<Rightarrow> unit \<times> obj list" where
  "record_visit e results kwargs seen = ((), seen @ [e])"

definition count_nodes :: "obj \<Rightarrow> nat list \<Rightarrow> unit \<Rightarrow> nat" where
  "count_nodes e results kwargs = 1 + sum_list results"

section \<open>Proofs about the postorder visitor\<close>

lemma dom_call: "dom (fst (call fn kw e st)) = insert (ident e) (dom (fst st))"
  by (auto simp: call_def split: prod.splits)

lemma dom_visit: "dom (fst st) \<union> {ident e} \<subseteq> dom (fst (visit fn kw e st))"
proof (induction e arbitrary: st)
  case (Obj i c ops v)
  have "dom (fst st) \<subseteq> dom (fst (fold (\<lambda>x a. visit fn kw x a) xs st))" if "set xs \<subseteq> set ops" for xs st
    using that
  proof (induction xs arbitrary: st)
    case Nil
    then show ?case by simp
  next
    case (Cons x xs)
    from Cons.prems have "x \<in> set ops" by simp
    from Obj.IH[OF this] have "dom (fst st) \<subseteq> dom (fst (visit fn kw x st))" by blast
    moreover have "dom (fst (visit fn kw x st)) \<subseteq> dom (fst (fold (\<lambda>x a. visit fn kw x a) xs (visit fn kw x st)))"
      using Cons.IH Cons.prems by simp
    ultimately show ?case by simp
  qed
  from this[of "rev (filter (\<lambda>x. fst st (ident x) = None) ops)" st]
  show ?case by (auto simp: dom_call)
qed

lemma visit_unfold:
  "visit fn kw e st =
     call fn kw e (fold (visit fn kw) (rev (filter (\<lambda>x. fst st (ident x) = None) (operands e))) st)"
  by (cases e) simp

declare visit.simps [simp del]

lemma dom_visits: "dom (fst st) \<union> ident ` set xs \<subseteq> dom (fst (fold (visit fn kw) xs st))"
proof (induction xs arbitrary: st)
  case Nil
  then show ?case by simp
next
  case (Cons x xs)
  have "dom (fst st) \<union> {ident x} \<subseteq> dom (fst (visit fn kw x st))" by (rule dom_visit)
  moreover have "dom (fst (visit fn kw x st)) \<union> ident ` set xs
      \<subseteq> dom (fst (fold (visit fn kw) xs (visit fn kw x st)))" by (rule Cons.IH)
  ultimately show ?case by auto
qed

lemma lookup_all_Some:
  "\<forall>c \<in> set cs. V (ident c) \<noteq> None \<Longrightarrow> lookup_all V cs = Some (map (\<lambda>c. the (V (ident c))) cs)"
  by (induction cs) auto

lemma loop_Nil: "postvisitor_loop fn kw [] V s = Some (Inr (V, s))"
  by (subst postvisitor_loop.simps) simp

lemma loop_all_visited:
  assumes "\<forall>c \<in> set (operands e). V (ident c) \<noteq> None"
  shows "postvisitor_loop fn kw (st @ [e]) V s =
         (case call fn kw e (V, s) of (V', s') \<Rightarrow> postvisitor_loop fn kw st V' s')"
proof -
  have "filter (\<lambda>c. V (ident c) = None) (operands e) = []"
    using assms by (auto simp: filter_empty_conv)
  then show ?thesis
    by (subst postvisitor_loop.simps)
       (simp add: lookup_all_Some[OF assms] call_def split: prod.splits)
qed

lemma loop_push:
  assumes "filter (\<lambda>c. V (ident c) = None) (operands e) \<noteq> []"
  shows "postvisitor_loop fn kw (st @ [e]) V s =
         postvisitor_loop fn kw (st @ [e] @ filter (\<lambda>c. V (ident c) = None) (operands e)) V s"
  using assms by (subst postvisitor_loop.simps) simp

lemma loop_visits:
  assumes "\<And>x st V s. x \<in> set xs \<Longrightarrow>
     postvisitor_loop fn kw (st @ [x]) V s =
       (case visit fn kw x (V, s) of (V', s') \<Rightarrow> postvisitor_loop fn kw st V' s')"
  shows "postvisitor_loop fn kw (st @ xs) V s =
       (case fold (visit fn kw) (rev xs) (V, s) of (V', s') \<Rightarrow> postvisitor_loop fn kw st V' s')"
  using assms
proof (induction xs arbitrary: V s rule: rev_induct)
  case Nil
  then show ?case by simp
next
  case (snoc x xs)
  have "postvisitor_loop fn kw (st @ xs @ [x]) V s = postvisitor_loop fn kw ((st @ xs) @ [x]) V s"
    by simp
  also have "\<dots> = (case visit fn kw x (V, s) of (V', s') \<Rightarrow> postvisitor_loop fn kw (st @ xs) V' s')"
    by (rule snoc.prems) simp
  also have "\<dots> = (case fold (visit fn kw) (rev (xs @ [x])) (V, s) of
                     (V', s') \<Rightarrow> postvisitor_loop fn kw st V' s')"
    using snoc.IH snoc.prems by (simp split: prod.splits)
  finally show ?case .
qed

lemma loop_visit:
  "postvisitor_loop fn kw (st @ [e]) V s =
     (case visit fn kw e (V, s) of (V', s') \<Rightarrow> postvisitor_loop fn kw st V' s')"
proof (induction e arbitrary: st V s)
  case (Obj i c ops v)
  let ?e = "Obj i c ops v"
  let ?us = "filter (\<lambda>c. V (ident c) = None) ops"
  show ?case
  proof (cases "?us = []")
    case True
    then have all: "\<forall>c \<in> set (operands ?e). V (ident c) \<noteq> None"
      by (auto simp: filter_empty_conv)
    show ?thesis
      using True by (simp add: loop_all_visited[OF all] visit_unfold[of fn kw ?e])
  next
    case False
    obtain V1 s1 where vs: "fold (visit fn kw) (rev ?us) (V, s) = (V1, s1)"
      by (cases "fold (visit fn kw) (rev ?us) (V, s)")
    have "dom (fst (V, s)) \<union> ident ` set (rev ?us) \<subseteq> dom (fst (fold (visit fn kw) (rev ?us) (V, s)))"
      by (rule dom_visits)
    then have sub: "dom V \<union> ident ` set ?us \<subseteq> dom V1" by (simp add: vs)
    have all: "\<forall>c \<in> set (operands ?e). V1 (ident c) \<noteq> None"
    proof
      fix c assume "c \<in> set (operands ?e)"
      then have "c \<in> set ops" by simp
      then have "ident c \<in> dom V \<or> c \<in> set ?us" by auto
      then have "ident c \<in> dom V1" using sub by auto
      then show "V1 (ident c) \<noteq> None" by auto
    qed
    have "postvisitor_loop fn kw (st @ [?e]) V s = postvisitor_loop fn kw ((st @ [?e]) @ ?us) V s"
      using loop_push[of V ?e fn kw st s] False by simp
    also have "\<dots> = (case fold (visit fn kw) (rev ?us) (V, s) of
                       (V', s') \<Rightarrow> postvisitor_loop fn kw (st @ [?e]) V' s')"
      by (rule loop_visits) (use Obj.IH in auto)
    also have "\<dots> = postvisitor_loop fn kw (st @ [?e]) V1 s1" by (simp add: vs)
    also have "\<dots> = (case call fn kw ?e (V1, s1) of (V', s') \<Rightarrow> postvisitor_loop fn kw st V' s')"
      by (rule loop_all_visited[OF all])
    also have "\<dots> = (case visit fn kw ?e (V, s) of (V', s') \<Rightarrow> postvisitor_loop fn kw st V' s')"
      by (simp add: visit_unfold[of fn kw ?e] vs)
    finally show ?thesis .
  qed
qed

lemma loop_root:
  "postvisitor_loop fn kw [e] V s = Some (Inr (visit fn kw e (V, s)))"
  using loop_visit[of fn kw "[]" e V s] by (simp add: loop_Nil split: prod.splits)

lemma nodes_self [simp]: "e \<in> nodes e"
  by (cases e) simp

lemma nodes_operands: "c \<in> set (operands e) \<Longrightarrow> nodes c \<subseteq> nodes e"
  by (cases e) auto

lemma replay_append [simp]: "replay m (tr @ tr') = replay (replay m tr) tr'"
  by (induction tr arbitrary: m) auto

lemma postorder_from_append [simp]:
  "postorder_from m (tr @ tr') = (postorder_from m tr \<and> postorder_from (replay m tr) tr')"
  by (induction tr arbitrary: m) auto

lemma call_traced:
  assumes "call (traced fn) kw e (V, (s, tr)) = (V', (s', tr'))"
    and "\<forall>c \<in> set (operands e). V (ident c) \<noteq> None"
    and "Inv V tr"
  shows "Inv V' tr' \<and> (\<exists>a r. tr' = tr @ [(e, a, r)] \<and> call fn kw e (V, s) = (V', s'))"
  using assms
  by (auto simp: call_def traced_def Inv_def lookup_all_Some split: prod.splits)

lemma visit_call:
  "\<exists>st1. visit fn kw e st = call fn kw e st1
     \<and> st1 = fold (visit fn kw) (rev (filter (\<lambda>x. fst st (ident x) = None) (operands e))) st
     \<and> (\<forall>c \<in> set (operands e). fst st1 (ident c) \<noteq> None)"
proof -
  let ?us = "filter (\<lambda>x. fst st (ident x) = None) (operands e)"
  let ?st1 = "fold (visit fn kw) (rev ?us) st"
  have "dom (fst st) \<union> ident ` set (rev ?us) \<subseteq> dom (fst ?st1)" by (rule dom_visits)
  then have "\<forall>c \<in> set (operands e). fst ?st1 (ident c) \<noteq> None" by fastforce
  then show ?thesis using visit_unfold[of fn kw e st] by blast
qed

lemma visits_traced:
  assumes IH: "\<And>x V s tr V' s' tr'. x \<in> set xs \<Longrightarrow>
       visit (traced fn) kw x (V, (s, tr)) = (V', (s', tr')) \<Longrightarrow> Inv V tr \<Longrightarrow>
       Inv V' tr' \<and> visit fn kw x (V, s) = (V', s') \<and>
       (\<exists>tr1. tr' = tr @ tr1 \<and> fst ` set tr1 \<subseteq> nodes x)"
    and "fold (visit (traced fn) kw) xs (V, (s, tr)) = (V', (s', tr'))"
    and "Inv V tr"
  shows "Inv V' tr' \<and> fold (visit fn kw) xs (V, s) = (V', s') \<and>
       (\<exists>tr1. tr' = tr @ tr1 \<and> fst ` set tr1 \<subseteq> (\<Union>x \<in> set xs. nodes x))"
  using assms
proof (induction xs arbitrary: V s tr)
  case Nil
  then show ?case by simp
next
  case (Cons x xs)
  obtain V1 s1 tr1 where v1: "visit (traced fn) kw x (V, (s, tr)) = (V1, (s1, tr1))"
    by (metis prod.exhaust)
  from Cons.prems(1)[OF _ v1 Cons.prems(3)]
  have a: "Inv V1 tr1" "visit fn kw x (V, s) = (V1, s1)"
    and "\<exists>t. tr1 = tr @ t \<and> fst ` set t \<subseteq> nodes x" by auto
  then obtain t where t: "tr1 = tr @ t" "fst ` set t \<subseteq> nodes x" by blast
  have f: "fold (visit (traced fn) kw) xs (V1, (s1, tr1)) = (V', (s', tr'))"
    using Cons.prems(2) v1 by simp
  have "Inv V' tr' \<and> fold (visit fn kw) xs (V1, s1) = (V', s') \<and>
       (\<exists>t'. tr' = tr1 @ t' \<and> fst ` set t' \<subseteq> (\<Union>x \<in> set xs. nodes x))"
  proof (rule Cons.IH[OF _ f a(1)])
    fix y V s tr V' s' tr'
    assume "y \<in> set xs" "visit (traced fn) kw y (V, (s, tr)) = (V', (s', tr'))" "Inv V tr"
    then show "Inv V' tr' \<and> visit fn kw y (V, s) = (V', s') \<and>
       (\<exists>tr1. tr' = tr @ tr1 \<and> fst ` set tr1 \<subseteq> nodes y)"
      using Cons.prems(1)[of y V s tr V' s' tr'] by simp
  qed
  then obtain t' where t': "Inv V' tr'" "fold (visit fn kw) xs (V1, s1) = (V', s')"
      "tr' = tr1 @ t'" "fst ` set t' \<subseteq> (\<Union>x \<in> set xs. nodes x)" by blast
  have "tr' = tr @ (t @ t')" using t t' by simp
  moreover have "fst ` set (t @ t') \<subseteq> (\<Union>x \<in> set (x # xs). nodes x)"
    using t(2) t'(4) by auto
  ultimately show ?case using t' a by (simp del: set_append)
qed

lemma visit_traced:
  assumes "visit (traced fn) kw e (V, (s, tr)) = (V', (s', tr'))" and "Inv V tr"
  shows "Inv V' tr' \<and> visit fn kw e (V, s) = (V', s') \<and>
       (\<exists>tr1 a r. tr' = tr @ tr1 @ [(e, a, r)] \<and> fst ` set tr1 \<subseteq> nodes e)"
  using assms
proof (induction e arbitrary: V s tr V' s' tr')
  case (Obj i c ops v)
  let ?e = "Obj i c ops v"
  let ?us = "filter (\<lambda>x. V (ident x) = None) ops"
  obtain V1 s1 tr1 where f: "fold (visit (traced fn) kw) (rev ?us) (V, (s, tr)) = (V1, (s1, tr1))"
    by (metis prod.exhaust)
  from visit_call[of "traced fn" kw ?e "(V, (s, tr))"] f
  have c: "visit (traced fn) kw ?e (V, (s, tr)) = call (traced fn) kw ?e (V1, (s1, tr1))"
    and all: "\<forall>c \<in> set (operands ?e). V1 (ident c) \<noteq> None" by auto
  have "Inv V1 tr1 \<and> fold (visit fn kw) (rev ?us) (V, s) = (V1, s1) \<and>
       (\<exists>t. tr1 = tr @ t \<and> fst ` set t \<subseteq> (\<Union>x \<in> set (rev ?us). nodes x))"
  proof (rule visits_traced[OF _ f Obj.prems(2)])
    fix x V s tr V' s' tr'
    assume "x \<in> set (rev ?us)" "visit (traced fn) kw x (V, (s, tr)) = (V', (s', tr'))" "Inv V tr"
    then show "Inv V' tr' \<and> visit fn kw x (V, s) = (V', s') \<and>
       (\<exists>tr1. tr' = tr @ tr1 \<and> fst ` set tr1 \<subseteq> nodes x)"
      using Obj.IH[of x V s tr V' s' tr'] by auto
  qed
  then obtain t where 1: "Inv V1 tr1" "fold (visit fn kw) (rev ?us) (V, s) = (V1, s1)"
    "tr1 = tr @ t" "fst ` set t \<subseteq> (\<Union>x \<in> set ?us. nodes x)" by auto
  from call_traced[OF _ all 1(1), of fn kw s1 V' s' tr'] c Obj.prems(1)
  obtain a r where 2: "Inv V' tr'" "tr' = tr1 @ [(?e, a, r)]" "call fn kw ?e (V1, s1) = (V', s')"
    by auto
  have "visit fn kw ?e (V, s) = (V', s')"
    using visit_unfold[of fn kw ?e "(V, s)"] 1(2) 2(3) by simp
  moreover have "fst ` set t \<subseteq> nodes ?e" using 1(4) by auto
  ultimately show ?case using 1(3) 2 by auto
qed

lemma fold_expr_unfold: "fold_expr f kw e = f e (map (fold_expr f kw) (operands e)) kw"
  by (cases e) simp

lemma call_stateless:
  assumes "consistent U" "e \<in> U" "set (operands e) \<subseteq> U" "correct f kw U V"
    and "\<forall>c \<in> set (operands e). V (ident c) \<noteq> None"
  shows "\<exists>V'. call (stateless f) kw e (V, s) = (V', s) \<and> correct f kw U V'"
proof -
  have m: "map (\<lambda>c. the (V (ident c))) (operands e) = map (fold_expr f kw) (operands e)"
    using assms(3,4,5) by (auto simp: correct_def)
  have c: "call (stateless f) kw e (V, s) = (V(ident e \<mapsto> fold_expr f kw e), s)"
    by (simp add: call_def stateless_def fold_expr_unfold[of f kw e] m)
  have "correct f kw U (V(ident e \<mapsto> fold_expr f kw e))"
    unfolding correct_def
  proof (intro ballI allI impI)
    fix x r assume x: "x \<in> U" "(V(ident e \<mapsto> fold_expr f kw e)) (ident x) = Some r"
    show "r = fold_expr f kw x"
    proof (cases "ident x = ident e")
      case True
      then have "x = e" using assms(1,2) x(1) by (auto simp: consistent_def)
      then show ?thesis using x(2) by simp
    next
      case False
      then show ?thesis using x assms(4) by (auto simp: correct_def)
    qed
  qed
  then show ?thesis using c by simp
qed

lemma visits_stateless:
  assumes "\<And>x V. x \<in> set xs \<Longrightarrow> correct f kw U V \<Longrightarrow>
       \<exists>V'. visit (stateless f) kw x (V, s) = (V', s) \<and> correct f kw U V'"
    and "correct f kw U V"
  shows "\<exists>V'. fold (visit (stateless f) kw) xs (V, s) = (V', s) \<and> correct f kw U V'"
  using assms
proof (induction xs arbitrary: V)
  case Nil
  then show ?case by simp
next
  case (Cons x xs)
  from Cons.prems(1)[of x V] Cons.prems(2)
  obtain V1 where v1: "visit (stateless f) kw x (V, s) = (V1, s)" "correct f kw U V1" by auto
  have "\<exists>V'. fold (visit (stateless f) kw) xs (V1, s) = (V', s) \<and> correct f kw U V'"
  proof (rule Cons.IH[OF _ v1(2)])
    fix y V assume "y \<in> set xs" "correct f kw U V"
    then show "\<exists>V'. visit (stateless f) kw y (V, s) = (V', s) \<and> correct f kw U V'"
      using Cons.prems(1)[of y V] by simp
  qed
  then show ?case using v1(1) by simp
qed

lemma visit_stateless:
  assumes "consistent U" "nodes e \<subseteq> U" "correct f kw U V"
  shows "\<exists>V'. visit (stateless f) kw e (V, s) = (V', s) \<and> correct f kw U V'"
  using assms(2,3)
proof (induction e arbitrary: V)
  case (Obj i c ops v)
  let ?e = "Obj i c ops v"
  let ?us = "filter (\<lambda>x. V (ident x) = None) ops"
  have sub: "set ops \<subseteq> U" using Obj.prems(1) nodes_self by fastforce
  have "\<exists>V'. fold (visit (stateless f) kw) (rev ?us) (V, s) = (V', s) \<and> correct f kw U V'"
  proof (rule visits_stateless[OF _ Obj.prems(2)])
    fix x V assume x: "x \<in> set (rev ?us)" "correct f kw U V"
    then have "nodes x \<subseteq> U" using Obj.prems(1) by auto
    then show "\<exists>V'. visit (stateless f) kw x (V, s) = (V', s) \<and> correct f kw U V'"
      using Obj.IH[of x V] x by auto
  qed
  then obtain V1 where v1: "fold (visit (stateless f) kw) (rev ?us) (V, s) = (V1, s)" "correct f kw U V1"
    by auto
  from visit_call[of "stateless f" kw ?e "(V, s)"] v1(1)
  have c: "visit (stateless f) kw ?e (V, s) = call (stateless f) kw ?e (V1, s)"
    and all: "\<forall>c \<in> set (operands ?e). V1 (ident c) \<noteq> None" by auto
  have "?e \<in> U" using Obj.prems(1) by auto
  from call_stateless[OF assms(1) this _ v1(2) all, of s] sub c
  show ?case by auto
qed

lemma visit_defined: "fst (visit fn kw e st) (ident e) \<noteq> None"
  using dom_visit[of st e fn kw] by auto

lemma correct_empty: "correct f kw U Map.empty"
  by (simp add: correct_def)

lemma postvisitor_stateless:
  assumes "consistent (nodes e)"
  shows "postvisitor e (stateless f) kw s = Some (Inr (fold_expr f kw e, s))"
proof -
  from visit_stateless[OF assms subset_refl correct_empty, of f kw s]
  obtain V' where v: "visit (stateless f) kw e (Map.empty, s) = (V', s)" "correct f kw (nodes e) V'"
    by auto
  from visit_defined[of "stateless f" kw e "(Map.empty, s)"] v(1)
  obtain r where r: "V' (ident e) = Some r" by auto
  then have "r = fold_expr f kw e" using v(2) by (auto simp: correct_def)
  then show ?thesis using r v(1) by (simp add: postvisitor_def loop_root)
qed

lemma Inv_empty: "Inv Map.empty []"
  by (simp add: Inv_def)

lemma dom_replay: "dom (replay m tr) = dom m \<union> ident ` fst ` set tr"
proof (induction tr arbitrary: m)
  case Nil
  then show ?case by simp
next
  case (Cons x tr)
  obtain e a r where x: "x = (e, a, r)" by (cases x)
  have "dom (replay (m(ident e \<mapsto> r)) tr) = dom (m(ident e \<mapsto> r)) \<union> ident ` fst ` set tr"
    by (rule Cons.IH)
  then show ?case using x by auto
qed

lemma nodes_trans: "y \<in> nodes e \<Longrightarrow> nodes y \<subseteq> nodes e"
proof (induction e)
  case (Obj i c ops v)
  show ?case
  proof (cases "y = Obj i c ops v")
    case True
    then show ?thesis by simp
  next
    case False
    then obtain x where "x \<in> set ops" "y \<in> nodes x" using Obj.prems by auto
    then show ?thesis using Obj.IH[of x] by auto
  qed
qed

lemma lookup_all_dom: "lookup_all m cs = Some a \<Longrightarrow> c \<in> set cs \<Longrightarrow> ident c \<in> dom m"
  by (induction cs arbitrary: a) (auto split: option.splits)

lemma postorder_from_earlier:
  assumes "postorder_from m tr" "k < length tr" "c \<in> set (operands (fst (tr ! k)))"
  shows "ident c \<in> dom m \<or> (\<exists>j<k. ident (fst (tr ! j)) = ident c)"
  using assms
proof (induction tr arbitrary: m k)
  case Nil
  then show ?case by simp
next
  case (Cons x tr)
  obtain e a r where x: "x = (e, a, r)" by (cases x)
  show ?case
  proof (cases k)
    case 0
    then show ?thesis using Cons.prems x by (auto dest: lookup_all_dom)
  next
    case (Suc k')
    have "postorder_from (m(ident e \<mapsto> r)) tr" using Cons.prems(1) x by simp
    moreover have "k' < length tr" "c \<in> set (operands (fst (tr ! k')))"
      using Cons.prems(2,3) Suc by auto
    ultimately have "ident c \<in> dom (m(ident e \<mapsto> r)) \<or> (\<exists>j<k'. ident (fst (tr ! j)) = ident c)"
      by (rule Cons.IH)
    then show ?thesis
    proof
      assume "ident c \<in> dom (m(ident e \<mapsto> r))"
      then have "ident c \<in> dom m \<or> ident (fst ((x # tr) ! 0)) = ident c"
        using x by (auto split: if_splits)
      then show ?thesis using Suc by auto
    next
      assume "\<exists>j<k'. ident (fst (tr ! j)) = ident c"
      then obtain j where "j < k'" "ident (fst (tr ! j)) = ident c" by blast
      then have "Suc j < k \<and> ident (fst ((x # tr) ! Suc j)) = ident c" using Suc by simp
      then show ?thesis by blast
    qed
  qed
qed

lemma run_traced:
  "\<exists>V tr a r s'.
     postvisitor_loop (traced fn) kw [e] Map.empty (s, []) = Some (Inr (V, (s', tr @ [(e, a, r)])))
   \<and> postvisitor_loop fn kw [e] Map.empty s = Some (Inr (V, s'))
   \<and> V = replay Map.empty (tr @ [(e, a, r)])
   \<and> postorder_from Map.empty (tr @ [(e, a, r)])
   \<and> fst ` set tr \<subseteq> nodes e"
proof -
  obtain V s' tr' where v: "visit (traced fn) kw e (Map.empty, (s, [])) = (V, (s', tr'))"
    by (metis prod.exhaust)
  from visit_traced[OF v Inv_empty]
  obtain tr a r where "Inv V tr'" "visit fn kw e (Map.empty, s) = (V, s')"
    "tr' = tr @ [(e, a, r)]" "fst ` set tr \<subseteq> nodes e" by auto
  then show ?thesis using v by (auto simp: loop_root Inv_def)
qed

lemma nodes_closed:
  assumes "\<forall>y \<in> T. set (operands y) \<subseteq> T"
  shows "e \<in> T \<Longrightarrow> nodes e \<subseteq> T"
proof (induction e)
  case (Obj i c ops v)
  have "set ops \<subseteq> T" using assms Obj.prems by fastforce
  then show ?case using Obj by auto
qed

lemma trace_covers:
  assumes "consistent (nodes e)" "postorder_from Map.empty tr" "fst ` set tr \<subseteq> nodes e"
    "e \<in> fst ` set tr"
  shows "fst ` set tr = nodes e"
proof -
  have "\<forall>y \<in> fst ` set tr. set (operands y) \<subseteq> fst ` set tr"
  proof (intro ballI subsetI)
    fix y c assume y: "y \<in> fst ` set tr" "c \<in> set (operands y)"
    then obtain k where k: "k < length tr" "fst (tr ! k) = y"
      by (metis imageE in_set_conv_nth)
    from postorder_from_earlier[OF assms(2) k(1), of c] y(2) k(2)
    obtain j where j: "j < k" "ident (fst (tr ! j)) = ident c" by auto
    have "fst (tr ! j) \<in> nodes e" using assms(3) j(1) k(1) by auto
    moreover have "c \<in> nodes e"
    proof -
      have "y \<in> nodes e" using y(1) assms(3) by blast
      then have "nodes y \<subseteq> nodes e" by (rule nodes_trans)
      moreover have "c \<in> nodes y" using nodes_operands[OF y(2)] by auto
      ultimately show ?thesis by blast
    qed
    ultimately have "fst (tr ! j) = c" using assms(1) j(2) by (auto simp: consistent_def)
    then show "c \<in> fst ` set tr" using j(1) k(1)
      by (metis image_eqI less_trans nth_mem)
  qed
  from nodes_closed[OF this assms(4)] assms(3) show ?thesis by auto
qed

subsection \<open>Claim C1: the value returned and the order of the calls\<close>

text \<open>
  Claim C1. For every expression tree or DAG (a consistent object graph) and every
  callable, \<^verbatim>\<open>postvisitor\<close> returns. What it returns is the result of the last call of
  \<^verbatim>\<open>fn\<close>; that call is on the root. Every call of the run, the last one included,
  receives the results stored for the node's operands, in the order of the operands
  (\<open>postorder_from\<close>); \<^verbatim>\<open>fn\<close> is called on every object of the graph and on nothing
  else, and every operand of a node that is called has been called at an earlier
  position of the trace. The run without the trace returns the same value and
  state. For a callable without effects the value is the bottom-up fold of the tree.
\<close>

theorem postvisitor_postorder:
  assumes "consistent (nodes expr)"
  shows "(\<exists>tr results r s'.
            postvisitor expr fn kwargs s = Some (Inr (r, s'))
          \<and> postvisitor expr (traced fn) kwargs (s, []) = Some (Inr (r, (s', tr)))
          \<and> tr \<noteq> [] \<and> last tr = (expr, results, r)
          \<and> postorder_from Map.empty tr
          \<and> fst ` set tr = nodes expr
          \<and> (\<forall>k < length tr. \<forall>c \<in> set (operands (fst (tr ! k))). \<exists>j<k. fst (tr ! j) = c))
       \<and> postvisitor expr (stateless f) kwargs t = Some (Inr (fold_expr f kwargs expr, t))"
proof -
  from run_traced[of fn kwargs expr s]
  obtain V tr0 a r s' where run:
    "postvisitor_loop (traced fn) kwargs [expr] Map.empty (s, []) = Some (Inr (V, (s', tr0 @ [(expr, a, r)])))"
    "postvisitor_loop fn kwargs [expr] Map.empty s = Some (Inr (V, s'))"
    "V = replay Map.empty (tr0 @ [(expr, a, r)])"
    "postorder_from Map.empty (tr0 @ [(expr, a, r)])"
    "fst ` set tr0 \<subseteq> nodes expr" by blast
  let ?tr = "tr0 @ [(expr, a, r)]"
  have Vr: "V (ident expr) = Some r" using run(3) by simp
  have sub: "fst ` set ?tr \<subseteq> nodes expr" using run(5) by auto
  have order: "\<exists>j<k. fst (?tr ! j) = c"
    if k: "k < length ?tr" and c: "c \<in> set (operands (fst (?tr ! k)))" for k c
  proof -
    from postorder_from_earlier[OF run(4) k c]
    obtain j where j: "j < k" "ident (fst (?tr ! j)) = ident c" by auto
    have "fst (?tr ! j) \<in> nodes expr" using sub j(1) k by (meson image_subset_iff less_trans nth_mem)
    moreover have "c \<in> nodes expr"
    proof -
      have "fst (?tr ! k) \<in> nodes expr" using sub k by (meson image_subset_iff nth_mem)
      then have "nodes (fst (?tr ! k)) \<subseteq> nodes expr" by (rule nodes_trans)
      moreover have "c \<in> nodes (fst (?tr ! k))" using nodes_operands[OF c] by auto
      ultimately show ?thesis by blast
    qed
    ultimately have "fst (?tr ! j) = c" using assms j(2) by (auto simp: consistent_def)
    then show ?thesis using j(1) by blast
  qed
  have "postvisitor expr fn kwargs s = Some (Inr (r, s'))"
    using run(2) Vr by (simp add: postvisitor_def)
  moreover have "postvisitor expr (traced fn) kwargs (s, []) = Some (Inr (r, (s', ?tr)))"
    using run(1) Vr by (simp add: postvisitor_def)
  moreover have "?tr \<noteq> []" "last ?tr = (expr, a, r)" by simp_all
  moreover have "fst ` set ?tr = nodes expr"
  proof (rule trace_covers[OF assms run(4) sub])
    show "expr \<in> fst ` set ?tr" by force
  qed
  ultimately have A: "\<exists>tr results r s'.
            postvisitor expr fn kwargs s = Some (Inr (r, s'))
          \<and> postvisitor expr (traced fn) kwargs (s, []) = Some (Inr (r, (s', tr)))
          \<and> tr \<noteq> [] \<and> last tr = (expr, results, r)
          \<and> postorder_from Map.empty tr
          \<and> fst ` set tr = nodes expr
          \<and> (\<forall>k < length tr. \<forall>c \<in> set (operands (fst (tr ! k))). \<exists>j<k. fst (tr ! j) = c)"
    using run(4) order by blast
  have B: "postvisitor expr (stateless f) kwargs t = Some (Inr (fold_expr f kwargs expr, t))"
    by (rule postvisitor_stateless[OF assms])
  from A B show ?thesis by (rule conjI)
qed

lemmas ex_defs = ex_x_def ex_y_def ex_mul_def ex_dag_def ex_twice_def ex_ones_def

theorem postvisitor_postorder_witness:
  "consistent (nodes ex_dag)
   \<and> postvisitor ex_dag (stateless count_nodes) () () = Some (Inr (5, ()))"
  using postvisitor_postorder[of ex_dag record_visit "()" "[]" count_nodes "()"]
  by (simp add: consistent_def ex_defs count_nodes_def)

subsection \<open>Claim C9: the dictionary is keyed by identity\<close>

text \<open>
  Claim C9. After the traversal of a DAG the dictionary \<^verbatim>\<open>visited\<close> is the replay of the
  calls (each result stored under the identity of the node called), its keys are exactly
  the identities of the objects of the graph, and \<^verbatim>\<open>fn\<close> has been called on every
  object of the graph and on nothing else. So two separately constructed nodes with equal
  values, having two identities, are called separately and fill two keys, and an object
  that is reached twice fills one key.
\<close>

theorem visited_keyed_by_identity:
  assumes "consistent (nodes expr)"
  shows "\<exists>visited s' tr.
            postvisitor_loop (traced fn) kwargs [expr] Map.empty (s, []) = Some (Inr (visited, (s', tr)))
          \<and> visited = replay Map.empty tr
          \<and> dom visited = ident ` nodes expr
          \<and> fst ` set tr = nodes expr"
proof -
  from run_traced[of fn kwargs expr s]
  obtain V tr0 a r s' where run:
    "postvisitor_loop (traced fn) kwargs [expr] Map.empty (s, []) = Some (Inr (V, (s', tr0 @ [(expr, a, r)])))"
    "V = replay Map.empty (tr0 @ [(expr, a, r)])"
    "postorder_from Map.empty (tr0 @ [(expr, a, r)])"
    "fst ` set tr0 \<subseteq> nodes expr" by blast
  let ?tr = "tr0 @ [(expr, a, r)]"
  have sub: "fst ` set ?tr \<subseteq> nodes expr" using run(4) by auto
  have "expr \<in> fst ` set ?tr" by force
  from trace_covers[OF assms run(3) sub this] have cov: "fst ` set ?tr = nodes expr" .
  have dV: "dom V = ident ` fst ` set ?tr" unfolding run(2) dom_replay by simp
  have "dom V = ident ` nodes expr" using dV unfolding cov .
  then show ?thesis using run(1,2) cov by blast
qed

theorem visited_keyed_by_identity_witness:
  "consistent (nodes ex_ones)
   \<and> (\<exists>visited s' tr.
         postvisitor_loop (traced record_visit) () [ex_ones] Map.empty ([], []) =
           Some (Inr (visited, (s', tr)))
       \<and> visited = replay Map.empty tr
       \<and> dom visited = ident ` nodes ex_ones \<and> fst ` set tr = nodes ex_ones)
   \<and> card (ident ` nodes ex_ones) = 3
   \<and> consistent (nodes ex_twice)
   \<and> (\<exists>visited s' tr.
         postvisitor_loop (traced record_visit) () [ex_twice] Map.empty ([], []) =
           Some (Inr (visited, (s', tr)))
       \<and> visited = replay Map.empty tr
       \<and> dom visited = ident ` nodes ex_twice \<and> fst ` set tr = nodes ex_twice)
   \<and> card (ident ` nodes ex_twice) = 2"
proof -
  have 1: "consistent (nodes ex_ones)" and 2: "consistent (nodes ex_twice)"
    by (simp_all add: consistent_def ex_defs)
  have 3: "card (ident ` nodes ex_ones) = 3" and 4: "card (ident ` nodes ex_twice) = 2"
    by (simp_all add: ex_defs)
  note 5 = visited_keyed_by_identity[OF 1, of record_visit "()" "[]"]
  note 6 = visited_keyed_by_identity[OF 2, of record_visit "()" "[]"]
  from 1 5 3 2 6 4 show ?thesis by (intro conjI)
qed

subsection \<open>Claim C2: a shared operand is called more than once\<close>

text \<open>
  Claim C2 says that \<^verbatim>\<open>fn\<close> is called at most once on each object, also when the object
  is an operand twice. The loop looks a node up in \<^verbatim>\<open>visited\<close> when it decides whether
  to push it, and not when it pops it. In \<^verbatim>\<open>x + x\<close> the one object \<^verbatim>\<open>x\<close> is pushed twice
  before it is visited and \<^verbatim>\<open>fn\<close> is called on it at both pops: the calls are on
  \<^verbatim>\<open>x\<close>, \<^verbatim>\<open>x\<close> and the sum, in this order.
\<close>

theorem postvisitor_shared_operand_twice:
  "postvisitor ex_twice record_visit () [] = Some (Inr ((), [ex_x, ex_x, ex_twice]))"
  by (simp add: postvisitor_def loop_root visit_unfold call_def record_visit_def ex_defs)

text \<open>
  The same happens when the two references come from different parents: in
  \<^verbatim>\<open>x + x * y\<close> the calls are on \<^verbatim>\<open>y\<close>, \<^verbatim>\<open>x\<close>, the product, \<^verbatim>\<open>x\<close> again and the sum.
\<close>

lemma postvisitor_dag_calls:
  "postvisitor ex_dag record_visit () [] = Some (Inr ((), [ex_y, ex_x, ex_mul, ex_x, ex_dag]))"
  by (simp add: postvisitor_def loop_root visit_unfold call_def record_visit_def ex_defs)

section \<open>Proofs about differentiation\<close>

lemma binary_Some:
  "binary C xs = Some t \<longleftrightarrow> (\<exists>a b. xs = [Some a, Some b] \<and> t = C a b)"
  by (induction C xs rule: binary.induct) auto

lemma Number_init_int [simp]:
  "Number_init (Val (PInt k)) n = Inr (Obj n Number [] (Some (PInt k)), Suc n)"
  by (simp add: Number_init_def isinstance_def Terminal_init_def)

lemma map_eq_2: "map f xs = [a, b] \<longleftrightarrow> (\<exists>x y. xs = [x, y] \<and> f x = a \<and> f y = b)"
  by (cases xs; cases "tl xs"; auto)

subsection \<open>Claim C3: the rule table\<close>

text \<open>
  Claim C3. On every well-formed expression tree (an object graph that \<open>abstract\<close> reads
  as an expression \<open>t\<close> of the specification) and for every variable name,
  \<^verbatim>\<open>differentiate\<close> returns, and the object it returns is well formed and reads as
  \<open>spec_derivative var t\<close>: the derivative is \<^verbatim>\<open>Number(0)\<close> for a number, \<^verbatim>\<open>Number(1)\<close> or
  \<^verbatim>\<open>Number(0)\<close> for a symbol, and follows the sum, difference, product and quotient rules
  of the table on the derivatives of the operands.
\<close>

theorem differentiate_rule_table:
  "abstract e = Some t \<Longrightarrow>
     \<exists>e' n'. differentiate e var n = Inr (e', n') \<and> abstract e' = Some (spec_derivative var t)"
proof (induction e arbitrary: t n)
  case (Obj i c ops v)
  show ?case
  proof (cases c)
    case Number
    then show ?thesis using Obj.prems
      by (auto simp: isinstance_def split: option.splits if_splits)
  next
    case Symbol
    then show ?thesis using Obj.prems
      by (auto simp: isinstance_def split: option.splits if_splits pyval.splits)
  next
    case Add
    with Obj.prems obtain l r a b where ops: "ops = [l, r]" "abstract l = Some a" "abstract r = Some b"
      "t = SAdd a b" "v = None"
      by (auto simp: binary_Some map_eq_2 split: if_splits)
    from Obj.IH[of l a n] ops obtain l' n1 where
      l: "differentiate l var n = Inr (l', n1)" "abstract l' = Some (spec_derivative var a)" by auto
    from Obj.IH[of r b n1] ops obtain r' n2 where
      r: "differentiate r var n1 = Inr (r', n2)" "abstract r' = Some (spec_derivative var b)" by auto
    show ?thesis using Add ops l r by (simp add: Expression_init_def)
  next
    case Sub
    with Obj.prems obtain l r a b where ops: "ops = [l, r]" "abstract l = Some a" "abstract r = Some b"
      "t = SSub a b" "v = None"
      by (auto simp: binary_Some map_eq_2 split: if_splits)
    from Obj.IH[of l a n] ops obtain l' n1 where
      l: "differentiate l var n = Inr (l', n1)" "abstract l' = Some (spec_derivative var a)" by auto
    from Obj.IH[of r b n1] ops obtain r' n2 where
      r: "differentiate r var n1 = Inr (r', n2)" "abstract r' = Some (spec_derivative var b)" by auto
    show ?thesis using Sub ops l r by (simp add: Expression_init_def)
  next
    case Mul
    with Obj.prems obtain l r a b where ops: "ops = [l, r]" "abstract l = Some a" "abstract r = Some b"
      "t = SMul a b" "v = None"
      by (auto simp: binary_Some map_eq_2 split: if_splits)
    from Obj.IH[of l a n] ops obtain l' n1 where
      l: "differentiate l var n = Inr (l', n1)" "abstract l' = Some (spec_derivative var a)" by auto
    from Obj.IH[of r b n1] ops obtain r' n2 where
      r: "differentiate r var n1 = Inr (r', n2)" "abstract r' = Some (spec_derivative var b)" by auto
    show ?thesis using Mul ops l r by (simp add: Expression_init_def)
  next
    case Div
    with Obj.prems obtain l r a b where ops: "ops = [l, r]" "abstract l = Some a" "abstract r = Some b"
      "t = SDiv a b" "v = None"
      by (auto simp: binary_Some map_eq_2 split: if_splits)
    from Obj.IH[of l a n] ops obtain l' n1 where
      l: "differentiate l var n = Inr (l', n1)" "abstract l' = Some (spec_derivative var a)" by auto
    from Obj.IH[of r b n1] ops obtain r' n2 where
      r: "differentiate r var n1 = Inr (r', n2)" "abstract r' = Some (spec_derivative var b)" by auto
    show ?thesis using Div ops l r by (simp add: Expression_init_def isinstance_def)
  next
    case Pow'
    with Obj.prems obtain l r a b where ops: "ops = [l, r]" "abstract l = Some a" "abstract r = Some b"
      "t = SPow a b" "v = None"
      by (auto simp: binary_Some map_eq_2 split: if_splits)
    show ?thesis using Pow' ops by (simp add: Expression_init_def isinstance_def)
  qed (use Obj.prems in auto)
qed

theorem differentiate_rule_table_witness:
  "abstract ex_sum = Some (SAdd (SSymbol ''x'') (SSymbol ''y''))
   \<and> (\<exists>e' n'. differentiate ex_sum ''x'' 3 = Inr (e', n')
         \<and> abstract e' = Some (SAdd (SNumber (PInt 1)) (SNumber (PInt 0))))"
  using differentiate_rule_table[of ex_sum "SAdd (SSymbol ''x'') (SSymbol ''y'')" "''x''" 3]
  by (simp add: ex_sum_def ex_x_def ex_y_def)

subsection \<open>Claim C4: the rule of \<^verbatim>\<open>Pow\<close>\<close>

text \<open>
  Claim C4. For every object of class \<^verbatim>\<open>Pow\<close> with a base and an exponent and for every
  variable name, \<^verbatim>\<open>differentiate\<close> returns
  \<^verbatim>\<open>Mul(exp, Pow(base, Sub(exp, Number(1))))\<close>, built from four new objects: the exponent
  object itself is the first operand of the product and of the difference, no call of
  \<^verbatim>\<open>differentiate\<close> is made on it or on the base, and the result does not depend on the
  variable.
\<close>

theorem differentiate_Pow:
  "differentiate (Obj i Pow' (base # exponent # rest) v) var n =
     Inr (Obj (n + 3) Mul
            [exponent,
             Obj (n + 2) Pow' [base, Obj (n + 1) Sub [exponent, Obj n Number [] (Some (PInt 1))] None] None]
            None,
          n + 4)"
  by (simp add: Expression_init_def)

subsection \<open>Claim C8: classes without a registration\<close>

text \<open>
  Claim C8 says that \<^verbatim>\<open>NotImplementedError\<close> is raised for exactly the inputs whose class
  has no registration. The call on \<^verbatim>\<open>Expression() + 1\<close>, an \<^verbatim>\<open>Add\<close> object, raises it
  too: the rule of \<^verbatim>\<open>Add\<close> calls \<^verbatim>\<open>differentiate\<close> on the left operand, a plain
  \<^verbatim>\<open>Expression\<close>, and the error of that call leaves the outer call.
\<close>

theorem differentiate_unregistered_operand:
  "registered (cls ex_bad)
   \<and> differentiate ex_bad ''x'' 3 = Inl (NotImplementedError ''Cannot differentiate Expression'')"
  by (simp add: ex_bad_def ex_unregistered_def registered_def)

lemma differentiate_default:
  "\<not> registered (cls e) \<Longrightarrow>
     differentiate e var n = Inl (NotImplementedError (''Cannot differentiate '' @ type_name (cls e)))"
  by (cases e; cases "cls e") (auto simp: registered_def)

lemma invoked_self [simp]: "e \<in> invoked e"
  by (cases e) simp

lemma differentiate_error_source:
  "differentiate e var n = Inl (NotImplementedError m) \<Longrightarrow>
     \<exists>x \<in> invoked e. \<not> registered (cls x) \<and> m = ''Cannot differentiate '' @ type_name (cls x)"
proof (induction e var n rule: differentiate.induct)
  case (1 i ops v var n)
  then show ?case by simp
next
  case (2 i ops v var n)
  then show ?case by (simp split: if_splits option.splits)
next
  case (3 i ops v var n)
  then show ?case
    by (fastforce simp: Expression_init_def split: list.splits sum.splits prod.splits)
next
  case (4 i ops v var n)
  then show ?case
    by (fastforce simp: Expression_init_def split: list.splits sum.splits prod.splits)
next
  case (5 i ops v var n)
  then show ?case
    by (fastforce simp: Expression_init_def split: list.splits sum.splits prod.splits)
next
  case (6 i ops v var n)
  then show ?case
    by (fastforce simp: Expression_init_def split: list.splits sum.splits prod.splits)
next
  case (7 i ops v var n)
  then show ?case
    by (simp add: Expression_init_def split: list.splits sum.splits prod.splits)
qed (auto simp: registered_def)

lemma differentiate_success_registered:
  "differentiate e var n = Inr (res, n') \<Longrightarrow> \<forall>x \<in> invoked e. registered (cls x)"
proof (induction e var n arbitrary: res n' rule: differentiate.induct)
  case (3 i ops v var n)
  then show ?case
    by (fastforce simp: registered_def split: list.splits sum.splits prod.splits)
next
  case (4 i ops v var n)
  then show ?case
    by (fastforce simp: registered_def split: list.splits sum.splits prod.splits)
next
  case (5 i ops v var n)
  then show ?case
    by (fastforce simp: registered_def split: list.splits sum.splits prod.splits)
next
  case (6 i ops v var n)
  then show ?case
    by (fastforce simp: registered_def split: list.splits sum.splits prod.splits)
qed (auto simp: registered_def)

lemma differentiate_attributes:
  "attributes_present e \<Longrightarrow>
     differentiate e var n \<noteq> Inl IndexError \<and> differentiate e var n \<noteq> Inl AttributeError"
proof (induction e arbitrary: n)
  case (Obj i c ops v)
  show ?case
  proof (cases "c \<in> set [Add, Mul, Sub, Div]")
    case True
    with Obj.prems obtain l r rest where
      ops: "ops = l # r # rest" "attributes_present l" "attributes_present r"
      by (auto split: list.splits)
    have l: "differentiate l var n \<noteq> Inl IndexError \<and> differentiate l var n \<noteq> Inl AttributeError"
      using Obj.IH[of l n] ops by simp
    have r: "differentiate r var k \<noteq> Inl IndexError \<and> differentiate r var k \<noteq> Inl AttributeError"
      for k using Obj.IH[of r k] ops by simp
    show ?thesis using True ops l r
      by (auto simp: Expression_init_def split: sum.splits prod.splits)
  next
    case False
    then show ?thesis using Obj.prems
      by (cases c) (auto simp: Expression_init_def split: list.splits if_splits)
  qed
qed

lemma differentiate_errors:
  "differentiate e var n = Inl err \<Longrightarrow>
     err = IndexError \<or> err = AttributeError \<or> (\<exists>m. err = NotImplementedError m)"
proof (induction e var n rule: differentiate.induct)
  case (3 i ops v var n)
  then show ?case
    by (auto simp: Expression_init_def split: list.splits sum.splits prod.splits)
next
  case (4 i ops v var n)
  then show ?case
    by (auto simp: Expression_init_def split: list.splits sum.splits prod.splits)
next
  case (5 i ops v var n)
  then show ?case
    by (auto simp: Expression_init_def split: list.splits sum.splits prod.splits)
next
  case (6 i ops v var n)
  then show ?case
    by (auto simp: Expression_init_def split: list.splits sum.splits prod.splits)
next
  case (7 i ops v var n)
  then show ?case
    by (auto simp: Expression_init_def split: list.splits sum.splits prod.splits)
qed (auto split: if_splits option.splits)

text \<open>
  Claim C8 as amended. A call of \<^verbatim>\<open>differentiate\<close> on an object whose class has no
  registration raises \<^verbatim>\<open>NotImplementedError\<close> with the message
  \<^verbatim>\<open>Cannot differentiate\<close> followed by the name of the class. Whenever a call raises
  \<^verbatim>\<open>NotImplementedError\<close>, the message names the class of an object without registration
  that the call was invoked on: the root, or an operand reached through the rules of
  \<^verbatim>\<open>Add\<close>, \<^verbatim>\<open>Sub\<close>, \<^verbatim>\<open>Mul\<close> and \<^verbatim>\<open>Div\<close>. And when the attributes the rules read are
  present, the error is raised as soon as such an object is among those reached.
\<close>

theorem differentiate_unsupported:
  "(\<not> registered (cls e) \<longrightarrow>
      differentiate e var n = Inl (NotImplementedError (''Cannot differentiate '' @ type_name (cls e))))
   \<and> (\<forall>m. differentiate e var n = Inl (NotImplementedError m) \<longrightarrow>
         (\<exists>x \<in> invoked e. \<not> registered (cls x) \<and> m = ''Cannot differentiate '' @ type_name (cls x)))
   \<and> (attributes_present e \<longrightarrow> (\<exists>x \<in> invoked e. \<not> registered (cls x)) \<longrightarrow>
         (\<exists>m. differentiate e var n = Inl (NotImplementedError m)))"
proof (intro conjI impI allI)
  assume "\<not> registered (cls e)"
  then show "differentiate e var n = Inl (NotImplementedError (''Cannot differentiate '' @ type_name (cls e)))"
    by (rule differentiate_default)
next
  fix m assume "differentiate e var n = Inl (NotImplementedError m)"
  then show "\<exists>x \<in> invoked e. \<not> registered (cls x) \<and> m = ''Cannot differentiate '' @ type_name (cls x)"
    by (rule differentiate_error_source)
next
  assume two: "attributes_present e" and bad: "\<exists>x \<in> invoked e. \<not> registered (cls x)"
  show "\<exists>m. differentiate e var n = Inl (NotImplementedError m)"
  proof (cases "differentiate e var n")
    case (Inl err)
    then show ?thesis using differentiate_errors[OF Inl] differentiate_attributes[OF two, of var n]
      by auto
  next
    case (Inr p)
    then obtain res n' where "differentiate e var n = Inr (res, n')" by (cases p) auto
    from differentiate_success_registered[OF this] bad show ?thesis by blast
  qed
qed

theorem differentiate_unsupported_witness:
  "\<not> registered (cls ex_unregistered)
   \<and> differentiate ex_unregistered ''x'' 0 = Inl (NotImplementedError ''Cannot differentiate Expression'')
   \<and> attributes_present ex_bad
   \<and> ex_unregistered \<in> invoked ex_bad
   \<and> (\<exists>m. differentiate ex_bad ''x'' 3 = Inl (NotImplementedError m))"
  using differentiate_unsupported[of ex_unregistered "''x''" 0]
        differentiate_unsupported[of ex_bad "''x''" 3]
  by (simp add: ex_bad_def ex_unregistered_def registered_def)

lemma heap_ok_alloc:
  "heap_ok n U \<Longrightarrow> heap_ok (Suc n) (insert (Obj n c ops v) U)"
  by (fastforce simp: heap_ok_def consistent_def)

lemma differentiate_heap:
  "differentiate e var n = Inr (res, n') \<Longrightarrow> heap_ok n U \<Longrightarrow> nodes e \<subseteq> U \<Longrightarrow>
     heap_ok n' (U \<union> nodes res) \<and> n \<le> n'"
proof (induction e arbitrary: n res n' U)
  case (Obj i c ops v)
  have rec: "heap_ok k' (W \<union> nodes y) \<and> k \<le> k'"
    if "x \<in> set ops" "differentiate x var k = Inr (y, k')" "heap_ok k W" "nodes x \<subseteq> W" for x k y k' W
    using Obj.IH[OF that] .
  show ?case
  proof (cases "c \<in> set [Add, Mul, Sub, Div]")
    case True
    from True Obj.prems(1) obtain l r rest ld n1 rd n2 where
      ops: "ops = l # r # rest" and
      dl: "differentiate l var n = Inr (ld, n1)" and
      dr: "differentiate r var n1 = Inr (rd, n2)"
      by (auto split: list.splits sum.splits prod.splits)
    have lU: "nodes l \<subseteq> U" and rU: "nodes r \<subseteq> U" using Obj.prems(3) ops by auto
    from rec[OF _ dl Obj.prems(2) lU] ops have h1: "heap_ok n1 (U \<union> nodes ld)" "n \<le> n1" by auto
    have "nodes r \<subseteq> U \<union> nodes ld" using rU by auto
    from rec[OF _ dr h1(1) this] ops have h2: "heap_ok n2 (U \<union> nodes ld \<union> nodes rd)" "n1 \<le> n2" by auto
    let ?W = "U \<union> nodes ld \<union> nodes rd"
    have W: "U \<union> nodes ld \<union> nodes rd \<union> nodes l \<union> nodes r = ?W" using lU rU by auto
    from True consider "c = Add" | "c = Sub" | "c = Mul" | "c = Div" by auto
    then show ?thesis
    proof cases
      case 1
      then have res: "res = Obj n2 Add [ld, rd] None" "n' = Suc n2"
        using Obj.prems(1) ops dl dr by (auto simp: Expression_init_def)
      have "U \<union> nodes res = insert res ?W" using res by auto
      then show ?thesis using heap_ok_alloc[OF h2(1), of Add "[ld, rd]" None] res \<open>n \<le> n1\<close> \<open>n1 \<le> n2\<close>
        by simp
    next
      case 2
      then have res: "res = Obj n2 Sub [ld, rd] None" "n' = Suc n2"
        using Obj.prems(1) ops dl dr by (auto simp: Expression_init_def)
      have "U \<union> nodes res = insert res ?W" using res by auto
      then show ?thesis using heap_ok_alloc[OF h2(1), of Sub "[ld, rd]" None] res \<open>n \<le> n1\<close> \<open>n1 \<le> n2\<close>
        by simp
    next
      case 3
      define m1 where "m1 = Obj n2 Mul [ld, r] None"
      define m2 where "m2 = Obj (Suc n2) Mul [l, rd] None"
      from 3 have res: "res = Obj (Suc (Suc n2)) Add [m1, m2] None" "n' = Suc (Suc (Suc n2))"
        using Obj.prems(1) ops dl dr by (auto simp: Expression_init_def m1_def m2_def)
      have "heap_ok (Suc n2) (insert m1 ?W)"
        unfolding m1_def by (rule heap_ok_alloc[OF h2(1)])
      then have "heap_ok (Suc (Suc n2)) (insert m2 (insert m1 ?W))"
        unfolding m2_def by (rule heap_ok_alloc)
      then have "heap_ok (Suc (Suc (Suc n2))) (insert res (insert m2 (insert m1 ?W)))"
        unfolding res by (rule heap_ok_alloc)
      moreover have "U \<union> nodes res = insert res (insert m2 (insert m1 ?W))"
        using res lU rU by (auto simp: m1_def m2_def)
      ultimately show ?thesis using res \<open>n \<le> n1\<close> \<open>n1 \<le> n2\<close> by simp
    next
      case 4
      define m1 where "m1 = Obj n2 Mul [r, ld] None"
      define m2 where "m2 = Obj (Suc n2) Mul [l, rd] None"
      define num where "num = Obj (Suc (Suc n2)) Sub [m1, m2] None"
      define c2 where "c2 = Obj (n2 + 3) Number [] (Some (PInt 2))"
      define den where "den = Obj (n2 + 4) Pow' [r, c2] None"
      from 4 have res: "res = Obj (n2 + 5) Div [num, den] None" "n' = n2 + 6"
        using Obj.prems(1) ops dl dr
        by (auto simp: Expression_init_def Number_init_def Terminal_init_def isinstance_def
              m1_def m2_def num_def c2_def den_def eval_nat_numeral)
      have "heap_ok (Suc n2) (insert m1 ?W)"
        unfolding m1_def by (rule heap_ok_alloc[OF h2(1)])
      then have "heap_ok (Suc (Suc n2)) (insert m2 (insert m1 ?W))"
        unfolding m2_def by (rule heap_ok_alloc)
      then have "heap_ok (Suc (Suc (Suc n2))) (insert num (insert m2 (insert m1 ?W)))"
        unfolding num_def by (rule heap_ok_alloc)
      then have "heap_ok (Suc (n2 + 3)) (insert c2 (insert num (insert m2 (insert m1 ?W))))"
        unfolding c2_def using heap_ok_alloc[of "n2 + 3"] by (simp add: eval_nat_numeral)
      then have "heap_ok (Suc (n2 + 4)) (insert den (insert c2 (insert num (insert m2 (insert m1 ?W)))))"
        unfolding den_def using heap_ok_alloc[of "n2 + 4"] by (simp add: eval_nat_numeral)
      then have "heap_ok (n2 + 6) (insert res (insert den (insert c2 (insert num (insert m2 (insert m1 ?W))))))"
        unfolding res using heap_ok_alloc[of "n2 + 5"] by (simp add: eval_nat_numeral)
      moreover have "U \<union> nodes res = insert res (insert den (insert c2 (insert num (insert m2 (insert m1 ?W)))))"
        using res lU rU by (auto simp: m1_def m2_def num_def c2_def den_def)
      ultimately have "heap_ok n' (U \<union> nodes res)" using res(2) by (simp only:)
      then show ?thesis using res(2) \<open>n \<le> n1\<close> \<open>n1 \<le> n2\<close> by simp
    qed
  next
    case False
    show ?thesis
    proof (cases c)
      case Number
      then have res: "res = Obj n Number [] (Some (PInt 0))" "n' = Suc n"
        using Obj.prems(1) by (auto simp: Number_init_def Terminal_init_def isinstance_def)
      then show ?thesis using heap_ok_alloc[OF Obj.prems(2), of Number "[]" "Some (PInt 0)"] by simp
    next
      case Symbol
      then obtain k where res: "res = Obj n Number [] (Some (PInt k))" "n' = Suc n"
        using Obj.prems(1)
        by (auto simp: Number_init_def Terminal_init_def isinstance_def
              split: if_splits option.splits)
      then show ?thesis using heap_ok_alloc[OF Obj.prems(2), of Number "[]" "Some (PInt k)"] by simp
    next
      case Pow'
      with Obj.prems(1) obtain b x rest where ops: "ops = b # x # rest"
        by (auto split: list.splits)
      define c1 where "c1 = Obj n Number [] (Some (PInt 1))"
      define e1 where "e1 = Obj (Suc n) Sub [x, c1] None"
      define pw where "pw = Obj (Suc (Suc n)) Pow' [b, e1] None"
      from Pow' ops have res: "res = Obj (Suc (Suc (Suc n))) Mul [x, pw] None" "n' = Suc (Suc (Suc (Suc n)))"
        using Obj.prems(1)
        by (auto simp: Expression_init_def Number_init_def Terminal_init_def isinstance_def
              c1_def e1_def pw_def)
      have bU: "nodes b \<subseteq> U" and xU: "nodes x \<subseteq> U" using Obj.prems(3) ops by auto
      have "heap_ok (Suc n) (insert c1 U)"
        unfolding c1_def by (rule heap_ok_alloc[OF Obj.prems(2)])
      then have "heap_ok (Suc (Suc n)) (insert e1 (insert c1 U))"
        unfolding e1_def by (rule heap_ok_alloc)
      then have "heap_ok (Suc (Suc (Suc n))) (insert pw (insert e1 (insert c1 U)))"
        unfolding pw_def by (rule heap_ok_alloc)
      then have "heap_ok (Suc (Suc (Suc (Suc n)))) (insert res (insert pw (insert e1 (insert c1 U))))"
        unfolding res by (rule heap_ok_alloc)
      moreover have "U \<union> nodes res = insert res (insert pw (insert e1 (insert c1 U)))"
        using res bU xU by (auto simp: c1_def e1_def pw_def)
      ultimately show ?thesis using res by simp
    qed (use False Obj.prems(1) in auto)
  qed
qed

lemma differentiate_nodes:
  "differentiate e var n = Inr (res, n') \<Longrightarrow>
     n \<le> n' \<and> (\<forall>y \<in> nodes res. y \<in> nodes e \<or> (n \<le> ident y \<and> ident y < n'))"
proof (induction e arbitrary: n res n')
  case (Obj i c ops v)
  have rec: "k \<le> k' \<and> (\<forall>z \<in> nodes y. z \<in> nodes x \<or> (k \<le> ident z \<and> ident z < k'))"
    if "x \<in> set ops" "differentiate x var k = Inr (y, k')" for x k y k'
    using Obj.IH[OF that] .
  show ?case
  proof (cases "c \<in> set [Add, Mul, Sub, Div]")
    case True
    from True Obj.prems(1) obtain l r rest ld n1 rd n2 where
      ops: "ops = l # r # rest" and
      dl: "differentiate l var n = Inr (ld, n1)" and
      dr: "differentiate r var n1 = Inr (rd, n2)"
      by (auto split: list.splits sum.splits prod.splits)
    from rec[OF _ dl] ops have h1: "n \<le> n1"
      "\<forall>z \<in> nodes ld. z \<in> nodes l \<or> (n \<le> ident z \<and> ident z < n1)" by auto
    from rec[OF _ dr] ops have h2: "n1 \<le> n2"
      "\<forall>z \<in> nodes rd. z \<in> nodes r \<or> (n1 \<le> ident z \<and> ident z < n2)" by auto
    have ld: "z \<in> nodes (Obj i c ops v) \<or> (n \<le> ident z \<and> ident z < n2)" if "z \<in> nodes ld" for z
      using h1 h2(1) that ops by fastforce
    have rd: "z \<in> nodes (Obj i c ops v) \<or> (n \<le> ident z \<and> ident z < n2)" if "z \<in> nodes rd" for z
      using h1(1) h2 that ops by fastforce
    have l: "nodes l \<subseteq> nodes (Obj i c ops v)" and r: "nodes r \<subseteq> nodes (Obj i c ops v)"
      using ops by auto
    from True consider "c = Add" | "c = Sub" | "c = Mul" | "c = Div" by auto
    then show ?thesis
    proof cases
      case 1
      then have res: "res = Obj n2 Add [ld, rd] None" "n' = Suc n2"
        using Obj.prems(1) ops dl dr by (auto simp: Expression_init_def)
      show ?thesis unfolding res using h1(1) h2(1) ld rd by fastforce
    next
      case 2
      then have res: "res = Obj n2 Sub [ld, rd] None" "n' = Suc n2"
        using Obj.prems(1) ops dl dr by (auto simp: Expression_init_def)
      show ?thesis unfolding res using h1(1) h2(1) ld rd by fastforce
    next
      case 3
      then have res: "res = Obj (Suc (Suc n2)) Add [Obj n2 Mul [ld, r] None, Obj (Suc n2) Mul [l, rd] None] None"
        "n' = Suc (Suc (Suc n2))"
        using Obj.prems(1) ops dl dr by (auto simp: Expression_init_def)
      show ?thesis unfolding res using h1(1) h2(1) ld rd l r by fastforce
    next
      case 4
      then have res: "res = Obj (n2 + 5) Div
          [Obj (n2 + 2) Sub [Obj n2 Mul [r, ld] None, Obj (n2 + 1) Mul [l, rd] None] None,
           Obj (n2 + 4) Pow' [r, Obj (n2 + 3) Number [] (Some (PInt 2))] None] None"
        "n' = n2 + 6"
        using Obj.prems(1) ops dl dr
        by (auto simp: Expression_init_def Number_init_def Terminal_init_def isinstance_def
              eval_nat_numeral)
      show ?thesis unfolding res using h1(1) h2(1) ld rd l r by fastforce
    qed
  next
    case False
    show ?thesis
    proof (cases c)
      case Number
      then show ?thesis using Obj.prems(1)
        by (auto simp: Number_init_def Terminal_init_def isinstance_def)
    next
      case Symbol
      then show ?thesis using Obj.prems(1)
        by (auto simp: Number_init_def Terminal_init_def isinstance_def
              split: if_splits option.splits)
    next
      case Pow'
      with Obj.prems(1) obtain b x rest where ops: "ops = b # x # rest"
        by (auto split: list.splits)
      from Pow' ops have res: "res = Obj (n + 3) Mul
           [x, Obj (n + 2) Pow' [b, Obj (n + 1) Sub [x, Obj n Number [] (Some (PInt 1))] None] None] None"
         "n' = n + 4"
        using Obj.prems(1)
        by (auto simp: Expression_init_def Number_init_def Terminal_init_def isinstance_def
              eval_nat_numeral)
      show ?thesis unfolding res using ops by fastforce
    qed (use False Obj.prems(1) in auto)
  qed
qed

subsection \<open>Claim C10: the result shares the operands of the input\<close>

text \<open>
  Claim C10. When \<^verbatim>\<open>differentiate\<close> returns on a \<^verbatim>\<open>Mul\<close>, \<^verbatim>\<open>Div\<close> or \<^verbatim>\<open>Pow\<close> object,
  the operand objects of the input stand in the result themselves, with their
  identities, at the places the rules give them. Every object of the result is an object
  of the input or has an identity taken from the counter during the call. No object is
  changed: for every consistent set of live objects that contains the input and lies
  below the counter, the set together with the objects of the result is still
  consistent, so no identity of a live object occurs in the result with another class,
  other operands or another value.
\<close>

theorem differentiate_aliases_operands:
  assumes "differentiate e var n = Inr (res, n')"
  shows "(cls e = Mul \<longrightarrow>
           (\<exists>left right rest left_diff right_diff a.
              operands e = left # right # rest \<and>
              res = Obj (Suc (Suc a)) Add
                      [Obj a Mul [left_diff, right] None, Obj (Suc a) Mul [left, right_diff] None] None))
       \<and> (cls e = Div \<longrightarrow>
           (\<exists>left right rest left_diff right_diff a.
              operands e = left # right # rest \<and>
              res = Obj (a + 5) Div
                      [Obj (a + 2) Sub
                         [Obj a Mul [right, left_diff] None, Obj (a + 1) Mul [left, right_diff] None] None,
                       Obj (a + 4) Pow' [right, Obj (a + 3) Number [] (Some (PInt 2))] None] None))
       \<and> (cls e = Pow' \<longrightarrow>
           (\<exists>base exponent rest.
              operands e = base # exponent # rest \<and>
              res = Obj (n + 3) Mul
                      [exponent,
                       Obj (n + 2) Pow'
                         [base, Obj (n + 1) Sub [exponent, Obj n Number [] (Some (PInt 1))] None] None] None))
       \<and> (\<forall>y \<in> nodes res. y \<in> nodes e \<or> (n \<le> ident y \<and> ident y < n'))
       \<and> (\<forall>U. consistent U \<and> (\<forall>x \<in> U. ident x < n) \<and> nodes e \<subseteq> U \<longrightarrow>
              consistent (U \<union> nodes res) \<and> (\<forall>x \<in> U \<union> nodes res. ident x < n'))"
proof (intro conjI impI allI)
  assume "cls e = Mul"
  then show "\<exists>left right rest left_diff right_diff a.
              operands e = left # right # rest \<and>
              res = Obj (Suc (Suc a)) Add
                      [Obj a Mul [left_diff, right] None, Obj (Suc a) Mul [left, right_diff] None] None"
    using assms
    by (cases e) (auto simp: Expression_init_def split: list.splits sum.splits prod.splits)
next
  assume "cls e = Div"
  then show "\<exists>left right rest left_diff right_diff a.
              operands e = left # right # rest \<and>
              res = Obj (a + 5) Div
                      [Obj (a + 2) Sub
                         [Obj a Mul [right, left_diff] None, Obj (a + 1) Mul [left, right_diff] None] None,
                       Obj (a + 4) Pow' [right, Obj (a + 3) Number [] (Some (PInt 2))] None] None"
    using assms
    by (cases e)
       (auto simp: Expression_init_def Number_init_def Terminal_init_def isinstance_def eval_nat_numeral
             split: list.splits sum.splits prod.splits)
next
  assume "cls e = Pow'"
  then show "\<exists>base exponent rest.
              operands e = base # exponent # rest \<and>
              res = Obj (n + 3) Mul
                      [exponent,
                       Obj (n + 2) Pow'
                         [base, Obj (n + 1) Sub [exponent, Obj n Number [] (Some (PInt 1))] None] None] None"
    using assms
    by (cases e)
       (auto simp: Expression_init_def Number_init_def Terminal_init_def isinstance_def eval_nat_numeral
             split: list.splits sum.splits prod.splits)
next
  show "\<forall>y \<in> nodes res. y \<in> nodes e \<or> (n \<le> ident y \<and> ident y < n')"
    using differentiate_nodes[OF assms] by blast
next
  fix U assume U: "consistent U \<and> (\<forall>x \<in> U. ident x < n) \<and> nodes e \<subseteq> U"
  then have "heap_ok n U" by (simp add: heap_ok_def)
  from differentiate_heap[OF assms this] U
  show "consistent (U \<union> nodes res)" and "\<forall>x \<in> U \<union> nodes res. ident x < n'"
    by (auto simp: heap_ok_def)
qed

theorem differentiate_aliases_operands_witness:
  "differentiate ex_square ''x'' 2 =
     Inr (Obj 6 Add
            [Obj 4 Mul [Obj 2 Number [] (Some (PInt 1)), ex_x] None,
             Obj 5 Mul [ex_x, Obj 3 Number [] (Some (PInt 1))] None] None, 7)
   \<and> consistent (nodes ex_square)
   \<and> consistent (nodes ex_square \<union> nodes (Obj 6 Add
            [Obj 4 Mul [Obj 2 Number [] (Some (PInt 1)), ex_x] None,
             Obj 5 Mul [ex_x, Obj 3 Number [] (Some (PInt 1))] None] None))"
proof -
  let ?res = "Obj 6 Add
            [Obj 4 Mul [Obj 2 Number [] (Some (PInt 1)), ex_x] None,
             Obj 5 Mul [ex_x, Obj 3 Number [] (Some (PInt 1))] None] None"
  have d: "differentiate ex_square ''x'' 2 = Inr (?res, 7)"
    by (simp add: ex_square_def ex_x_def Expression_init_def)
  have c: "consistent (nodes ex_square)" and b: "\<forall>x \<in> nodes ex_square. ident x < 2"
    by (simp_all add: consistent_def ex_square_def ex_x_def)
  from differentiate_aliases_operands[OF d, THEN conjunct2, THEN conjunct2, THEN conjunct2,
         THEN conjunct2, THEN spec, of "nodes ex_square"] c b
  have "consistent (nodes ex_square \<union> nodes ?res)" by simp
  then show ?thesis using d c by simp
qed

section \<open>Proofs about construction and rendering\<close>

lemma isinstance_numeric: "isinstance (Val v) [T_int, T_float] = numeric v"
  by (cases v) (auto simp: isinstance_def)

lemma isinstance_textual: "isinstance (Val v) [T_str] = textual v"
  by (cases v) (auto simp: isinstance_def)

lemma isinstance_Ref: "\<not> isinstance (Ref e) [T_int, T_float]" "\<not> isinstance (Ref e) [T_str]"
  by (auto simp: isinstance_def)

lemma isinstance_Expression:
  "isinstance (Ref e) [T_class Expression]" "\<not> isinstance (Val v) [T_class Expression]"
  by (cases "cls e"; cases v; auto simp: isinstance_def)+

subsection \<open>Claim C7: the constructors check the type of the value\<close>

text \<open>
  Claim C7. \<^verbatim>\<open>Number(v)\<close> returns a new \<^verbatim>\<open>Number\<close> holding \<open>v\<close> for every numeric \<open>v\<close>
  (an \<^verbatim>\<open>int\<close>, a \<^verbatim>\<open>float\<close>, or a \<^verbatim>\<open>bool\<close>, which Python counts as an \<^verbatim>\<open>int\<close>) and
  raises \<^verbatim>\<open>TypeError\<close>, creating nothing, for every other argument, an expression object
  included. \<^verbatim>\<open>Symbol(v)\<close> returns a new \<^verbatim>\<open>Symbol\<close> for every string and raises
  \<^verbatim>\<open>TypeError\<close> for every other argument.
\<close>

theorem construction_type_checks:
  "Number_init (Val v) n =
     (if numeric v then Inr (Obj n Number [] (Some v), Suc n)
      else Inl (TypeError ''Number value must be an int or float.''))
   \<and> Number_init (Ref e) n = Inl (TypeError ''Number value must be an int or float.'')
   \<and> Symbol_init (Val v) n =
     (if textual v then Inr (Obj n Symbol [] (Some v), Suc n)
      else Inl (TypeError ''Symbol value must be a string.''))
   \<and> Symbol_init (Ref e) n = Inl (TypeError ''Symbol value must be a string.'')"
  by (simp add: Number_init_def Symbol_init_def isinstance_numeric isinstance_textual
        isinstance_Ref Terminal_init_def)

lemma promote_numeric: "numeric k \<Longrightarrow> promote (Val k) n = Inr (Obj n Number [] (Some k), Suc n)"
  by (simp add: promote_def isinstance_Expression Number_init_def isinstance_numeric Terminal_init_def)

lemma promote_Ref: "promote (Ref b) n = Inr (b, n)"
  by (simp add: promote_def isinstance_Expression)

subsection \<open>Claim C6: the arithmetic combinators\<close>

text \<open>
  Claim C6. For every expression object \<open>e\<close> and every numeric \<open>k\<close>, \<^verbatim>\<open>e + k\<close> creates
  \<^verbatim>\<open>Number(k)\<close> and then \<^verbatim>\<open>Add\<close> with the operands \<open>e\<close> and that number, in this order,
  and the reflected \<^verbatim>\<open>k + e\<close> creates \<^verbatim>\<open>Add\<close> with the number first; the same holds for
  \<^verbatim>\<open>-\<close>, \<^verbatim>\<open>*\<close>, \<^verbatim>\<open>/\<close> and \<^verbatim>\<open>**\<close> with \<^verbatim>\<open>Sub\<close>, \<^verbatim>\<open>Mul\<close>, \<^verbatim>\<open>Div\<close> and \<^verbatim>\<open>Pow\<close>. An
  operand that is an expression object is taken as it is, without a wrapper.
\<close>

theorem combinators_build_operator_nodes:
  "(numeric k \<longrightarrow>
      Expression_add e (Val k) n = Inr (Obj (Suc n) Add [e, Obj n Number [] (Some k)] None, Suc (Suc n))
    \<and> Expression_sub e (Val k) n = Inr (Obj (Suc n) Sub [e, Obj n Number [] (Some k)] None, Suc (Suc n))
    \<and> Expression_mul e (Val k) n = Inr (Obj (Suc n) Mul [e, Obj n Number [] (Some k)] None, Suc (Suc n))
    \<and> Expression_truediv e (Val k) n = Inr (Obj (Suc n) Div [e, Obj n Number [] (Some k)] None, Suc (Suc n))
    \<and> Expression_pow e (Val k) n = Inr (Obj (Suc n) Pow' [e, Obj n Number [] (Some k)] None, Suc (Suc n))
    \<and> Expression_radd e (Val k) n = Inr (Obj (Suc n) Add [Obj n Number [] (Some k), e] None, Suc (Suc n))
    \<and> Expression_rsub e (Val k) n = Inr (Obj (Suc n) Sub [Obj n Number [] (Some k), e] None, Suc (Suc n))
    \<and> Expression_rmul e (Val k) n = Inr (Obj (Suc n) Mul [Obj n Number [] (Some k), e] None, Suc (Suc n))
    \<and> Expression_rtruediv e (Val k) n = Inr (Obj (Suc n) Div [Obj n Number [] (Some k), e] None, Suc (Suc n))
    \<and> Expression_rpow e (Val k) n = Inr (Obj (Suc n) Pow' [Obj n Number [] (Some k), e] None, Suc (Suc n)))
   \<and> Expression_add e (Ref b) n = Inr (Obj n Add [e, b] None, Suc n)
   \<and> Expression_sub e (Ref b) n = Inr (Obj n Sub [e, b] None, Suc n)
   \<and> Expression_mul e (Ref b) n = Inr (Obj n Mul [e, b] None, Suc n)
   \<and> Expression_truediv e (Ref b) n = Inr (Obj n Div [e, b] None, Suc n)
   \<and> Expression_pow e (Ref b) n = Inr (Obj n Pow' [e, b] None, Suc n)
   \<and> Expression_radd e (Ref b) n = Inr (Obj n Add [b, e] None, Suc n)
   \<and> Expression_rsub e (Ref b) n = Inr (Obj n Sub [b, e] None, Suc n)
   \<and> Expression_rmul e (Ref b) n = Inr (Obj n Mul [b, e] None, Suc n)
   \<and> Expression_rtruediv e (Ref b) n = Inr (Obj n Div [b, e] None, Suc n)
   \<and> Expression_rpow e (Ref b) n = Inr (Obj n Pow' [b, e] None, Suc n)"
  by (simp add: promote_numeric promote_Ref Expression_init_def
        Expression_add_def Expression_sub_def Expression_mul_def Expression_truediv_def
        Expression_pow_def Expression_radd_def Expression_rsub_def Expression_rmul_def
        Expression_rtruediv_def Expression_rpow_def)

theorem combinators_witness:
  "numeric (PInt 2)
   \<and> Expression_add ex_x (Val (PInt 2)) 1 =
       Inr (Obj 2 Add [ex_x, Obj 1 Number [] (Some (PInt 2))] None, 3)
   \<and> Expression_radd ex_x (Val (PInt 2)) 1 =
       Inr (Obj 2 Add [Obj 1 Number [] (Some (PInt 2)), ex_x] None, 3)"
  using combinators_build_operator_nodes[of "PInt 2" ex_x 1]
  by (simp add: eval_nat_numeral)

declare str_nat.simps [simp del]

lemma str_int_digit [simp]: "str_int 1 = ''1''" "str_int 2 = ''2''"
  by (simp_all add: str_int_def str_nat.simps)

subsection \<open>Claim C5: rendering\<close>

text \<open>
  Claim C5. The text of a binary operator node is the text of the left operand, a space,
  the symbol, a space and the text of the right operand, where the text of an operand is
  put in parentheses exactly when the operand's precedence is strictly below the node's.
  A \<^verbatim>\<open>Number\<close> renders as the text of its value, a \<^verbatim>\<open>Symbol\<close> as its name. In
  particular \<^verbatim>\<open>Sub(Symbol("a"), Sub(Symbol("b"), Symbol("c")))\<close> renders as
  \<^verbatim>\<open>a - b - c\<close> and \<^verbatim>\<open>Mul(Add(Symbol("x"), Number(1)), Number(2))\<close> as \<^verbatim>\<open>(x + 1) * 2\<close>.
\<close>

theorem render_infix:
  "(Operator \<in> set (mro c) \<and> symbol c = Some sy \<and> precedence c = Some q
      \<and> precedence (cls left) = Some pl \<and> precedence (cls right) = Some pr
      \<and> str_expr float_str object_str left = Inr sl
      \<and> str_expr float_str object_str right = Inr sr
    \<longrightarrow> str_expr float_str object_str (Obj i c [left, right] v) =
          Inr ((if pl < q then ''('' @ sl @ '')'' else sl) @ '' '' @ sy @ '' '' @
               (if pr < q then ''('' @ sr @ '')'' else sr)))
   \<and> str_expr float_str object_str (Obj i Number [] (Some x)) = Inr (str_val float_str x)
   \<and> str_expr float_str object_str (Obj i Symbol [] (Some (PStr name))) = Inr name
   \<and> str_expr float_str object_str ex_sub_chain = Inr ''a - b - c''
   \<and> str_expr float_str object_str ex_product = Inr ''(x + 1) * 2''"
  by (simp add: ex_sub_chain_def ex_product_def ex_a_def ex_b_def ex_c_def one_enat_def
        numeral_eq_enat)

theorem render_infix_witness:
  "str_expr (\<lambda>_. []) (\<lambda>_. []) (Obj 2 Add [Obj 0 Symbol [] (Some (PStr ''x'')), Obj 1 Number [] (Some (PInt 1))] None)
     = Inr ''x + 1''
   \<and> str_expr (\<lambda>_. []) (\<lambda>_. []) ex_product = Inr ''(x + 1) * 2''"
  using render_infix[of Mul "''*''" 2
          "Obj 2 Add [Obj 0 Symbol [] (Some (PStr ''x'')), Obj 1 Number [] (Some (PInt 1))] None"
          1 "Obj 3 Number [] (Some (PInt 2))" "\<infinity>" "\<lambda>_. []" "\<lambda>_. []" "''x + 1''" "''2''" 4 None]
  by (simp add: ex_product_def one_enat_def numeral_eq_enat)

end
